theory Spec2Isabelle
  imports Main "HOL-Library.Sublist"
begin

section \<open>Values, mapping objects and the object store\<close>

text \<open>
  The configuration is made of Python values as \<^verbatim>\<open>yaml.safe_load\<close> builds them:
  \<^verbatim>\<open>None\<close>, booleans, integers, strings, sequences and mappings. A Python \<^verbatim>\<open>dict\<close> is
  an object that is updated in place and may be referenced from several places, and
  \<^verbatim>\<open>merge_config\<close> stores references to the default's own sub-mappings into the current
  configuration (\<^verbatim>\<open>current[key] = value\<close> copies nothing). A mapping value is therefore a
  reference \<open>VDict a\<close> to the object at address \<open>a\<close> of a store, and the store holds each
  mapping as its items in insertion order; an address that holds no object has no items.
  Sequences are never updated by this program and are kept as values. Keys are strings, as all keys of \<^verbatim>\<open>DEFAULT_CONFIG\<close> are; characters are
  code points below 256; floating-point scalars are left out.
\<close>

type_synonym addr = nat

datatype val =
    VNone
  | VBool bool
  | VInt int
  | VStr string
  | VList "val list"
  | VDict addr

type_synonym dict = "(string \<times> val) list"

type_synonym store = "addr \<Rightarrow> dict"

datatype exc =
    TypeError
  | AttributeError
  | IndexError
  | RuntimeError
  | RecursionError
  | FileNotFoundError

fun is_dict :: "val \<Rightarrow> bool" where
  "is_dict (VDict a) = True"
| "is_dict _ = False"

definition keys :: "dict \<Rightarrow> string set" where
  "keys items = fst ` set items"

section \<open>The default configuration\<close>

text \<open>
  \<^verbatim>\<open>DEFAULT_CONFIG\<close> is one module-level object with two nested mappings. It lives at
  address \<open>0\<close>, its \<^verbatim>\<open>"app"\<close> mapping at \<open>1\<close> and its \<^verbatim>\<open>"system"\<close> mapping at \<open>2\<close>.
\<close>

abbreviation (input) DEFAULT_CONFIG :: addr where
  "DEFAULT_CONFIG \<equiv> 0"

abbreviation (input) DEFAULT_app :: addr where
  "DEFAULT_app \<equiv> 1"

abbreviation (input) DEFAULT_system :: addr where
  "DEFAULT_system \<equiv> 2"

definition app_defaults :: dict where
  "app_defaults = [(''name'', VStr ''AutoIsys''), (''version'', VStr ''0.0.2'')]"

definition system_defaults :: dict where
  "system_defaults =
     [(''auto_update'', VBool True),
      (''auto_install'', VBool True),
      (''install_docker'', VBool True),
      (''enable_services'', VList [VStr ''docker''])]"

definition root_defaults :: dict where
  "root_defaults =
     [(''app'', VDict DEFAULT_app),
      (''system'', VDict DEFAULT_system),
      (''packages'', VList [VStr ''git'', VStr ''curl'', VStr ''htop''])]"

definition has_default :: "store \<Rightarrow> bool" where
  "has_default h \<longleftrightarrow>
     h DEFAULT_CONFIG = root_defaults \<and> h DEFAULT_app = app_defaults \<and>
     h DEFAULT_system = system_defaults"

text \<open>
  A configuration read from the file is made of objects the YAML loader allocates, none of
  which is an object of \<^verbatim>\<open>DEFAULT_CONFIG\<close>: neither the root \<open>c\<close> nor the mappings it binds
  to \<^verbatim>\<open>"app"\<close> and \<^verbatim>\<open>"system"\<close>. Nothing is asked about sharing inside the configuration
  (YAML anchors can make two keys refer to one mapping, or a mapping refer to itself).
\<close>

definition default_addrs :: "addr set" where
  "default_addrs = {DEFAULT_CONFIG, DEFAULT_app, DEFAULT_system}"

definition loaded :: "store \<Rightarrow> addr \<Rightarrow> bool" where
  "loaded h c \<longleftrightarrow>
     c \<notin> default_addrs \<and>
     (\<forall>k \<in> {''app'', ''system''}. \<forall>b. map_of (h c) k = Some (VDict b) \<longrightarrow> b \<notin> default_addrs)"

section \<open>Config merge\<close>

text \<open>
  \<^verbatim>\<open>
  def merge_config(default, current):
      for key, value in default.items():
          if key not in current:
              current[key] = value
          elif isinstance(value, dict) and isinstance(current[key], dict):
              merge_config(value, current[key])
  \<close>
  The first argument of \<open>merge_config\<close> is the number of stack frames left: a call with none
  left raises \<^verbatim>\<open>RecursionError\<close>, as the interpreter does at its recursion limit. The store
  is returned also when an exception is raised, since the writes made before it stay.

  \<open>merge_items\<close> is the \<^verbatim>\<open>for\<close> loop over \<^verbatim>\<open>default.items()\<close>. The loop only ever adds keys
  to mappings and never rebinds or removes one, so the items still to visit are those of
  the mapping when the loop started, unless the mapping \<open>d\<close> itself has grown meanwhile
  (it can, when it is reachable from \<open>current\<close>): the dictionary iterator compares the size
  of the mapping with the size at its creation each time the next item is asked for, also
  the last time, and raises \<^verbatim>\<open>RuntimeError\<close> (dictionary changed size during iteration).
\<close>

fun both_dicts :: "val \<Rightarrow> val \<Rightarrow> (addr \<times> addr) option" where
  "both_dicts (VDict da) (VDict ca) = Some (da, ca)"
| "both_dicts _ _ = None"

fun merge_config :: "nat \<Rightarrow> addr \<Rightarrow> addr \<Rightarrow> store \<Rightarrow> exc option \<times> store"
  and merge_items :: "nat \<Rightarrow> addr \<Rightarrow> nat \<Rightarrow> dict \<Rightarrow> addr \<Rightarrow> store \<Rightarrow> exc option \<times> store"
where
  "merge_config 0 d c h = (Some RecursionError, h)"
| "merge_config (Suc n) d c h = merge_items n d (length (h d)) (h d) c h"
| "merge_items n d sz [] c h =
     (if length (h d) \<noteq> sz then (Some RuntimeError, h) else (None, h))"
| "merge_items n d sz ((key, value) # rest) c h =
     (if length (h d) \<noteq> sz then (Some RuntimeError, h)
      else case map_of (h c) key of
        None \<Rightarrow> merge_items n d sz rest c (h(c := h c @ [(key, value)]))
      | Some cv \<Rightarrow>
          (case both_dicts value cv of
             Some (da, ca) \<Rightarrow>
               (case merge_config n da ca h of
                  (None, h') \<Rightarrow> merge_items n d sz rest c h'
                | (Some e, h') \<Rightarrow> (Some e, h'))
           | None \<Rightarrow> merge_items n d sz rest c h))"

text \<open>Key paths: \<open>has_path h a ks\<close> holds when the keys \<open>ks\<close> can be followed from the
  mapping at \<open>a\<close>, every key but the last leading to a mapping.\<close>

fun has_path :: "store \<Rightarrow> addr \<Rightarrow> string list \<Rightarrow> bool" where
  "has_path h a [] = True"
| "has_path h a (k # ks) =
     (case map_of (h a) k of
        None \<Rightarrow> False
      | Some v \<Rightarrow> ks = [] \<or> (case v of VDict b \<Rightarrow> has_path h b ks | _ \<Rightarrow> False))"

text \<open>\<open>blocked h a ks\<close>: following \<open>ks\<close> from \<open>a\<close> meets, before the last key, a key bound to
  a value that is not a mapping.\<close>

fun blocked :: "store \<Rightarrow> addr \<Rightarrow> string list \<Rightarrow> bool" where
  "blocked h a [] = False"
| "blocked h a (k # ks) =
     (ks \<noteq> [] \<and>
      (case map_of (h a) k of
         None \<Rightarrow> False
       | Some v \<Rightarrow> (case v of VDict b \<Rightarrow> blocked h b ks | _ \<Rightarrow> True)))"

text \<open>
  Vocabulary of the proofs about the merge. \<open>grows h h'\<close>: every mapping of \<open>h'\<close> has the
  items of \<open>h\<close> in front, in the same order. \<open>flat items\<close>: no value is a mapping.
  \<open>wf_store\<close>: the keys of every mapping are distinct, as the keys of a \<^verbatim>\<open>dict\<close> are.
  \<open>nested n h c\<close> lists \<open>c\<close> and the mappings reached from it through mapping values in at
  most \<open>n - 1\<close> steps, one entry for each way of reaching them, so that the list is distinct
  exactly when those mappings form a tree.
\<close>

definition grows :: "store \<Rightarrow> store \<Rightarrow> bool" where
  "grows h h' \<longleftrightarrow> (\<forall>a. prefix (h a) (h' a))"

definition flat :: "dict \<Rightarrow> bool" where
  "flat items \<longleftrightarrow> (\<forall>(k, v) \<in> set items. \<not> is_dict v)"

definition wf_store :: "store \<Rightarrow> bool" where
  "wf_store h \<longleftrightarrow> (\<forall>a. distinct (map fst (h a)))"

definition kid :: "(addr \<Rightarrow> addr list) \<Rightarrow> string \<times> val \<Rightarrow> addr list" where
  "kid f e = (case snd e of VDict b \<Rightarrow> f b | _ \<Rightarrow> [])"

primrec nested :: "nat \<Rightarrow> store \<Rightarrow> addr \<Rightarrow> addr list" where
  "nested 0 h a = []"
| "nested (Suc n) h a = a # concat (map (kid (nested n h)) (h a))"

section \<open>Environment, output and exit\<close>

text \<open>
  What the program asks of its environment: \<^verbatim>\<open>platform.system()\<close>, whether
  \<^verbatim>\<open>shutil.which(cmd)\<close> finds an executable, the lines of \<^verbatim>\<open>/etc/os-release\<close> (\<open>None\<close> when
  opening it raises \<^verbatim>\<open>FileNotFoundError\<close>) and \<^verbatim>\<open>platform.mac_ver()[0]\<close>. A child process
  may change all of it; \<^verbatim>\<open>subprocess.run\<close> is a parameter \<open>run\<close> of the steps that maps the
  command and the world before to the world after, or raises (a missing executable).

  A step returns how it ended, the world after it and what it did, in order: the lines
  printed, the calls of \<^verbatim>\<open>subprocess.run\<close> and the documents written with \<^verbatim>\<open>yaml.dump\<close>.
  \<open>PrintEnabling v\<close> is the line \<^verbatim>\<open>f"[SERVICE] Enabling {v}"\<close>, printed for any value \<open>v\<close>.
\<close>

record world =
  platform_system :: string
  which :: "string \<Rightarrow> bool"
  os_release :: "string list option"
  mac_ver :: string

datatype event = Print string | PrintEnabling val | Run "string list" | Dump val

datatype outcome = Returned | Raised exc | Exited nat

type_synonym runner = "string list \<Rightarrow> world \<Rightarrow> exc option \<times> world"

type_synonym result = "outcome \<times> world \<times> event list"

definition emit :: "event list \<Rightarrow> result \<Rightarrow> result" where
  "emit es r = (case r of (out, w, es') \<Rightarrow> (out, w, es @ es'))"

definition subprocess_run :: "runner \<Rightarrow> string list \<Rightarrow> world \<Rightarrow> result" where
  "subprocess_run run cmd w =
     (case run cmd w of
        (None, w') \<Rightarrow> (Returned, w', [Run cmd])
      | (Some e, w') \<Rightarrow> (Raised e, w', [Run cmd]))"

fun join :: "string \<Rightarrow> string list \<Rightarrow> string" where
  "join sep [] = []"
| "join sep [x] = x"
| "join sep (x # y # ys) = x @ sep @ join sep (y # ys)"

definition startswith :: "string \<Rightarrow> string \<Rightarrow> bool" where
  "startswith s p \<longleftrightarrow> take (length p) s = p"

text \<open>\<^verbatim>\<open>s.split(c, 1)\<close>: one piece when \<open>c\<close> does not occur, else the text before the
  first \<open>c\<close> and the text after it.\<close>

definition split_once :: "char \<Rightarrow> string \<Rightarrow> string list" where
  "split_once c s =
     (case dropWhile (\<lambda>x. x \<noteq> c) s of
        [] \<Rightarrow> [s]
      | _ # after \<Rightarrow> [takeWhile (\<lambda>x. x \<noteq> c) s, after])"

definition is_space :: "char \<Rightarrow> bool" where
  "is_space ch \<longleftrightarrow>
     (of_char ch :: nat) \<in> {9, 10, 11, 12, 13, 28, 29, 30, 31, 32, 133, 160}"

definition strip_chars :: "(char \<Rightarrow> bool) \<Rightarrow> string \<Rightarrow> string" where
  "strip_chars P s = rev (dropWhile P (rev (dropWhile P s)))"

section \<open>OS\<close>

text \<open>
  \<^verbatim>\<open>
  def get_linux_distro():
      try:
          with open("/etc/os-release") as f:
              for line in f:
                  if line.startswith("PRETTY_NAME"):
                      return line.split("=", 1)[1].strip().strip('"')
      except FileNotFoundError:
          return "Unknown Linux"
  \<close>
  The result is a string or, when the loop ends without a return, Python's \<^verbatim>\<open>None\<close>
  (\<open>Inr None\<close>). Indexing the pieces of a line without \<^verbatim>\<open>=\<close> raises \<^verbatim>\<open>IndexError\<close>, which
  the \<^verbatim>\<open>except\<close> clause does not catch.
\<close>

fun pretty_name :: "string list \<Rightarrow> exc + string option" where
  "pretty_name [] = Inr None"
| "pretty_name (line # rest) =
     (if startswith line ''PRETTY_NAME'' then
        (case split_once CHR ''='' line of
           [_, v] \<Rightarrow> Inr (Some (strip_chars (\<lambda>ch. ch = CHR 0x22) (strip_chars is_space v)))
         | _ \<Rightarrow> Inl IndexError)
      else pretty_name rest)"

definition get_linux_distro :: "world \<Rightarrow> exc + string option" where
  "get_linux_distro w =
     (case os_release w of
        None \<Rightarrow> Inr (Some ''Unknown Linux'')
      | Some lines \<Rightarrow> pretty_name lines)"

definition check_os :: "world \<Rightarrow> result" where
  "check_os w =
     (if platform_system w = ''Linux'' then
        (case get_linux_distro w of
           Inl e \<Rightarrow> (Raised e, w, [])
         | Inr name \<Rightarrow>
             (Returned, w, [Print (''OS: '' @ (case name of None \<Rightarrow> ''None'' | Some s \<Rightarrow> s))]))
      else if platform_system w = ''Darwin'' then
        (Returned, w, [Print (''OS: macOS '' @ mac_ver w)])
      else (Exited 1, w, [Print ''Unsupported OS'']))"

section \<open>Package manager\<close>

definition managers :: "(string \<times> string) list" where
  "managers =
     [(''pacman'', ''pacman''),
      (''apt'', ''apt''),
      (''dnf'', ''dnf''),
      (''yum'', ''yum''),
      (''zypper'', ''zypper''),
      (''apk'', ''apk''),
      (''emerge'', ''emerge''),
      (''xbps-install'', ''xbps''),
      (''nix-env'', ''nix'')]"

fun first_manager :: "world \<Rightarrow> (string \<times> string) list \<Rightarrow> string" where
  "first_manager w [] = ''unknown-linux''"
| "first_manager w ((cmd, name) # rest) =
     (if which w cmd then name else first_manager w rest)"

definition detect_package_manager :: "world \<Rightarrow> string" where
  "detect_package_manager w =
     (if platform_system w = ''Linux'' then first_manager w managers
      else if platform_system w = ''Darwin'' then
        (if which w ''brew'' then ''brew''
         else if which w ''port'' then ''macports''
         else ''unknown-macos'')
      else ''unsupported-os'')"

section \<open>Reading the configuration\<close>

text \<open>
  \<open>system_get h c key dflt\<close> is \<^verbatim>\<open>config.get("system", {}).get(key, dflt)\<close> for the
  configuration at \<open>c\<close>: a \<^verbatim>\<open>"system"\<close> entry that is not a mapping has no \<^verbatim>\<open>get\<close>
  (\<^verbatim>\<open>AttributeError\<close>). \<open>truthy\<close> is the truth value \<^verbatim>\<open>not\<close> and \<^verbatim>\<open>if\<close> take of a value,
  \<open>iterate\<close> the items a \<^verbatim>\<open>for\<close> loop visits.
\<close>

definition system_get :: "store \<Rightarrow> addr \<Rightarrow> string \<Rightarrow> val \<Rightarrow> exc + val" where
  "system_get h c key dflt =
     (case map_of (h c) ''system'' of
        None \<Rightarrow> Inr dflt
      | Some s \<Rightarrow>
          (case s of
             VDict a \<Rightarrow> Inr (case map_of (h a) key of None \<Rightarrow> dflt | Some v \<Rightarrow> v)
           | _ \<Rightarrow> Inl AttributeError))"

fun truthy :: "store \<Rightarrow> val \<Rightarrow> bool" where
  "truthy h VNone = False"
| "truthy h (VBool b) = b"
| "truthy h (VInt i) = (i \<noteq> 0)"
| "truthy h (VStr s) = (s \<noteq> [])"
| "truthy h (VList xs) = (xs \<noteq> [])"
| "truthy h (VDict a) = (h a \<noteq> [])"

fun iterate :: "store \<Rightarrow> val \<Rightarrow> exc + val list" where
  "iterate h (VList xs) = Inr xs"
| "iterate h (VStr s) = Inr (map (\<lambda>ch. VStr [ch]) s)"
| "iterate h (VDict a) = Inr (map (\<lambda>(k, v). VStr k) (h a))"
| "iterate h _ = Inl TypeError"

text \<open>\<open>flag_missing h c flag\<close>: the configuration has no \<^verbatim>\<open>"system"\<close> entry, or its
  \<^verbatim>\<open>"system"\<close> mapping has no entry \<open>flag\<close>.\<close>

definition flag_missing :: "store \<Rightarrow> addr \<Rightarrow> string \<Rightarrow> bool" where
  "flag_missing h c flag =
     (case map_of (h c) ''system'' of
        None \<Rightarrow> True
      | Some s \<Rightarrow> (case s of VDict a \<Rightarrow> map_of (h a) flag = None | _ \<Rightarrow> False))"

section \<open>Loading the configuration\<close>

text \<open>
  \<^verbatim>\<open>
  def load_config():
      if not os.path.exists(CONFIG_FILE):
          print("[CONFIG] Creating config.yaml")
          with open(CONFIG_FILE, "w", encoding="utf-8") as f:
              yaml.dump(DEFAULT_CONFIG, f, allow_unicode=True)
          return DEFAULT_CONFIG.copy()
      with open(CONFIG_FILE, "r", encoding="utf-8") as f:
          current = yaml.safe_load(f) or {}
      merge_config(DEFAULT_CONFIG, current)
      with open(CONFIG_FILE, "w", encoding="utf-8") as f:
          yaml.dump(current, f, allow_unicode=True)
      return current
  \<close>
  The file is seen through the loader: \<open>None\<close> when \<^verbatim>\<open>config.yaml\<close> does not exist, else the
  value \<^verbatim>\<open>yaml.safe_load\<close> returns for it, whose mappings are objects of the store. \<open>fresh\<close>
  is the address of the object Python makes next (the \<^verbatim>\<open>{}\<close> or the copy, which shares the
  nested mappings of the default). \<open>Dump v\<close> is \<^verbatim>\<open>yaml.dump(v, f)\<close>: the file then holds
  the value \<open>v\<close> as the returned store has it, nothing being written to the store between
  the dump and the return. A \<^verbatim>\<open>current\<close> that is not a mapping (a sequence, a string, a
  number) makes \<^verbatim>\<open>merge_config\<close> raise \<^verbatim>\<open>TypeError\<close> at the first key of the default, in
  \<^verbatim>\<open>key not in current\<close>, in \<^verbatim>\<open>current[key] = value\<close> or in \<^verbatim>\<open>current[key]\<close>. Files that
  cannot be read, parsed or written are left out.
\<close>

definition load_config ::
  "nat \<Rightarrow> val option \<Rightarrow> addr \<Rightarrow> store \<Rightarrow> (exc + val) \<times> store \<times> event list" where
  "load_config n file fresh h =
     (case file of
        None \<Rightarrow>
          (Inr (VDict fresh), h(fresh := h DEFAULT_CONFIG),
           [Print ''[CONFIG] Creating config.yaml'', Dump (VDict DEFAULT_CONFIG)])
      | Some parsed \<Rightarrow>
          (let h0 = (if truthy h parsed then h else h(fresh := []));
               current = (if truthy h parsed then parsed else VDict fresh)
           in case current of
                VDict c \<Rightarrow>
                  (case merge_config n DEFAULT_CONFIG c h0 of
                     (None, h') \<Rightarrow> (Inr current, h', [Dump current])
                   | (Some e, h') \<Rightarrow> (Inl e, h', []))
              | _ \<Rightarrow> (Inl TypeError, h0, [])))"

section \<open>Auto update\<close>

definition update_commands :: "(string \<times> string list) list" where
  "update_commands =
     [(''pacman'', [''sudo'', ''pacman'', ''-Syu'']),
      (''apt'', [''sudo'', ''apt'', ''update'']),
      (''dnf'', [''sudo'', ''dnf'', ''upgrade'', ''-y'']),
      (''yum'', [''sudo'', ''yum'', ''update'', ''-y'']),
      (''apk'', [''sudo'', ''apk'', ''upgrade'']),
      (''brew'', [''brew'', ''update''])]"

definition auto_update_system :: "runner \<Rightarrow> store \<Rightarrow> addr \<Rightarrow> world \<Rightarrow> result" where
  "auto_update_system run h c w =
     (case system_get h c ''auto_update'' (VBool False) of
        Inl e \<Rightarrow> (Raised e, w, [])
      | Inr flag \<Rightarrow>
          if \<not> truthy h flag then (Returned, w, [Print ''[INFO] Auto update disabled''])
          else
            (case map_of update_commands (detect_package_manager w) of
               None \<Rightarrow>
                 (Returned, w,
                  [Print (''[WARN] Auto update not supported for: '' @ detect_package_manager w)])
             | Some cmd \<Rightarrow>
                 emit [Print (''[RUN] '' @ join '' '' cmd)] (subprocess_run run cmd w)))"

section \<open>Docker\<close>

definition docker_packages :: "(string \<times> string list) list" where
  "docker_packages =
     [(''pacman'', [''sudo'', ''pacman'', ''-S'', ''--noconfirm'', ''docker'']),
      (''apt'', [''sudo'', ''apt'', ''install'', ''-y'', ''docker.io'']),
      (''dnf'', [''sudo'', ''dnf'', ''install'', ''-y'', ''docker'']),
      (''yum'', [''sudo'', ''yum'', ''install'', ''-y'', ''docker'']),
      (''apk'', [''sudo'', ''apk'', ''add'', ''docker'']),
      (''brew'', [''brew'', ''install'', ''--cask'', ''docker''])]"

definition install_docker :: "runner \<Rightarrow> store \<Rightarrow> addr \<Rightarrow> world \<Rightarrow> result" where
  "install_docker run h c w =
     (case system_get h c ''install_docker'' (VBool False) of
        Inl e \<Rightarrow> (Raised e, w, [])
      | Inr flag \<Rightarrow>
          if \<not> truthy h flag then (Returned, w, [Print ''[INFO] Docker install disabled''])
          else
            (case map_of docker_packages (detect_package_manager w) of
               None \<Rightarrow>
                 (Returned, w,
                  [Print (''[WARN] Docker install not supported for: '' @ detect_package_manager w)])
             | Some cmd \<Rightarrow>
                 emit [Print ''[INFO] Installing Docker''] (subprocess_run run cmd w)))"

section \<open>Services\<close>

text \<open>The service name is printed before \<^verbatim>\<open>subprocess.run\<close> sees it; a name that is
  not a string makes the call raise \<^verbatim>\<open>TypeError\<close>.\<close>

fun enable_loop :: "runner \<Rightarrow> val list \<Rightarrow> world \<Rightarrow> result" where
  "enable_loop run [] w = (Returned, w, [])"
| "enable_loop run (service # rest) w =
     (case service of
        VStr s \<Rightarrow>
          (case subprocess_run run [''sudo'', ''systemctl'', ''enable'', ''--now'', s] w of
             (Returned, w', es) \<Rightarrow>
               emit (PrintEnabling service # es) (enable_loop run rest w')
           | (out, w', es) \<Rightarrow> (out, w', PrintEnabling service # es))
      | _ \<Rightarrow> (Raised TypeError, w, [PrintEnabling service]))"

definition enable_services :: "runner \<Rightarrow> store \<Rightarrow> addr \<Rightarrow> world \<Rightarrow> result" where
  "enable_services run h c w =
     (case system_get h c ''enable_services'' (VList []) of
        Inl e \<Rightarrow> (Raised e, w, [])
      | Inr services \<Rightarrow>
          if \<not> truthy h services then (Returned, w, [Print ''[INFO] No services to enable''])
          else if \<not> which w ''systemctl'' then
            (Returned, w, [Print ''[WARN] systemd not detected''])
          else
            (case iterate h services of
               Inl e \<Rightarrow> (Raised e, w, [])
             | Inr xs \<Rightarrow> enable_loop run xs w))"

section \<open>Auto install packages\<close>

text \<open>\<^verbatim>\<open>is_installed(pkg)\<close> is \<^verbatim>\<open>shutil.which(pkg) is not None\<close>. A package that is not
  a string makes \<^verbatim>\<open>shutil.which\<close> raise \<^verbatim>\<open>TypeError\<close>, which is the last branch of the
  loop body.\<close>

definition is_installed :: "world \<Rightarrow> string \<Rightarrow> bool" where
  "is_installed w pkg = which w pkg"

definition INSTALL_COMMANDS :: "(string \<times> (string \<Rightarrow> string list)) list" where
  "INSTALL_COMMANDS =
     [(''pacman'', \<lambda>p. [''sudo'', ''pacman'', ''-S'', ''--noconfirm'', p]),
      (''apt'', \<lambda>p. [''sudo'', ''apt'', ''install'', ''-y'', p]),
      (''dnf'', \<lambda>p. [''sudo'', ''dnf'', ''install'', ''-y'', p]),
      (''yum'', \<lambda>p. [''sudo'', ''yum'', ''install'', ''-y'', p]),
      (''apk'', \<lambda>p. [''sudo'', ''apk'', ''add'', p]),
      (''brew'', \<lambda>p. [''brew'', ''install'', p])]"

fun install_loop :: "runner \<Rightarrow> (string \<Rightarrow> string list) \<Rightarrow> val list \<Rightarrow> world \<Rightarrow> result" where
  "install_loop run mk [] w = (Returned, w, [])"
| "install_loop run mk (pkg # rest) w =
     (case pkg of
        VStr p \<Rightarrow>
          if is_installed w p then
            emit [Print (''[OK] '' @ p @ '' already installed'')] (install_loop run mk rest w)
          else
            (case subprocess_run run (mk p) w of
               (Returned, w', es) \<Rightarrow>
                 emit (Print (''[INSTALL] '' @ join '' '' (mk p)) # es)
                   (install_loop run mk rest w')
             | (out, w', es) \<Rightarrow> (out, w', Print (''[INSTALL] '' @ join '' '' (mk p)) # es))
      | _ \<Rightarrow> (Raised TypeError, w, []))"

definition auto_install_packages :: "runner \<Rightarrow> store \<Rightarrow> addr \<Rightarrow> world \<Rightarrow> result" where
  "auto_install_packages run h c w =
     (case system_get h c ''auto_install'' (VBool False) of
        Inl e \<Rightarrow> (Raised e, w, [])
      | Inr flag \<Rightarrow>
          if \<not> truthy h flag then (Returned, w, [Print ''[INFO] Auto install disabled''])
          else
            (let packages = (case map_of (h c) ''packages'' of None \<Rightarrow> VList [] | Some v \<Rightarrow> v) in
             if \<not> truthy h packages then (Returned, w, [Print ''[INFO] No packages to install''])
             else
               (case map_of INSTALL_COMMANDS (detect_package_manager w) of
                  None \<Rightarrow>
                    (Returned, w,
                     [Print (''[WARN] Package manager not supported: '' @ detect_package_manager w)])
                | Some mk \<Rightarrow>
                    emit [Print (''[INFO] Installing packages using: '' @ detect_package_manager w)]
                      (case iterate h packages of
                         Inl e \<Rightarrow> (Raised e, w, [])
                       | Inr xs \<Rightarrow> install_loop run mk xs w))))"

section \<open>Main\<close>

definition banner :: "event list" where
  "banner =
     [Print ''=============================================='',
      Print ''              AutoIsys Utility'',
      Print ''=============================================='']"

definition logo :: "world \<Rightarrow> result" where
  "logo w = (Returned, w, banner)"

text \<open>Statements in sequence: the next one runs only when the one before returned; an
  exception or \<^verbatim>\<open>sys.exit\<close> ends the run.\<close>

fun in_sequence :: "(world \<Rightarrow> result) list \<Rightarrow> world \<Rightarrow> result" where
  "in_sequence [] w = (Returned, w, [])"
| "in_sequence (step # steps) w =
     (case step w of
        (Returned, w', es) \<Rightarrow> emit es (in_sequence steps w')
      | (out, w', es) \<Rightarrow> (out, w', es))"

definition main :: "runner \<Rightarrow> store \<Rightarrow> addr \<Rightarrow> world \<Rightarrow> result" where
  "main run h c w =
     in_sequence
       [logo, check_os, auto_update_system run h c, install_docker run h c,
        auto_install_packages run h c, enable_services run h c] w"

section \<open>Sample environments and configurations\<close>

definition quiet_run :: runner where
  "quiet_run cmd w = (None, w)"

definition windows_box :: world where
  "windows_box =
     \<lparr>platform_system = ''Windows'', which = (\<lambda>cmd. False), os_release = None,
      mac_ver = []\<rparr>"

definition arch_box :: world where
  "arch_box =
     \<lparr>platform_system = ''Linux'',
      which = (\<lambda>cmd. cmd = ''pacman'' \<or> cmd = ''apt'' \<or> cmd = ''git''),
      os_release = Some [''NAME=Arch'' @ [CHR 0x0A]],
      mac_ver = []\<rparr>"

definition bare_linux_box :: world where
  "bare_linux_box =
     \<lparr>platform_system = ''Linux'',
      which = (\<lambda>cmd. cmd = ''git''),
      os_release = Some [''NAME=Foo'' @ [CHR 0x0A], ''ID=foo'' @ [CHR 0x0A]],
      mac_ver = []\<rparr>"

definition void_box :: world where
  "void_box =
     \<lparr>platform_system = ''Linux'',
      which = (\<lambda>cmd. cmd = ''xbps-install'' \<or> cmd = ''nix-env''),
      os_release = None,
      mac_ver = []\<rparr>"

definition default_store :: store where
  "default_store =
     (\<lambda>a. [])(DEFAULT_CONFIG := root_defaults, DEFAULT_app := app_defaults,
               DEFAULT_system := system_defaults)"

text \<open>A file that sets one flag and its own packages (at \<open>3\<close>), and a file with packages
  only (at \<open>5\<close>).\<close>

definition user_config :: store where
  "user_config =
     default_store
       (3 := [(''system'', VDict 4), (''packages'', VList [VStr ''git'', VStr ''vim''])],
        4 := [(''auto_update'', VBool False)],
        5 := [(''packages'', VList [VStr ''git''])])"

text \<open>A file with every flag on.\<close>

definition full_config :: store where
  "full_config =
     default_store
       (3 := [(''system'', VDict 4), (''packages'', VList [VStr ''git'', VStr ''vim''])],
        4 := [(''auto_update'', VBool True), (''auto_install'', VBool True),
              (''install_docker'', VBool True)])"

text \<open>A file that binds \<^verbatim>\<open>app\<close> to a number.\<close>

definition config_with_scalar_app :: store where
  "config_with_scalar_app = default_store(3 := [(''app'', VInt 5)])"

text \<open>A file whose \<^verbatim>\<open>app\<close> and \<^verbatim>\<open>system\<close> keys refer to one mapping, as a YAML anchor and
  alias give (\<^verbatim>\<open>app: &x {}\<close>, \<^verbatim>\<open>system: *x\<close>).\<close>

definition aliased_config :: store where
  "aliased_config = default_store(3 := [(''app'', VDict 4), (''system'', VDict 4)], 4 := [])"

text \<open>A file with the line \<^verbatim>\<open>system:\<close> and nothing under it: the loader binds \<^verbatim>\<open>system\<close> to
  \<^verbatim>\<open>None\<close>.\<close>

definition null_system_config :: store where
  "null_system_config = default_store(3 := [(''system'', VNone)])"

text \<open>The store after \<^verbatim>\<open>load_config\<close> has read that file.\<close>

definition null_system_loaded :: store where
  "null_system_loaded = fst (snd (load_config 2 (Some (VDict 3)) 7 null_system_config))"

section \<open>Properties of the merge\<close>

subsection \<open>Lists, keys and growing stores\<close>

lemma two_le_Suc: "2 \<le> n \<Longrightarrow> \<exists>m. n = Suc (Suc m)"
  by (rule exI[of _ "n - 2"]) simp

lemma map_of_None_keys: "map_of xs k = None \<longleftrightarrow> k \<notin> keys xs"
  by (simp add: keys_def map_of_eq_None_iff)

lemma keys_map_of: "k \<in> keys xs \<Longrightarrow> \<exists>v. map_of xs k = Some v"
  using map_of_None_keys[of xs k] by (cases "map_of xs k") auto

lemma map_of_keys: "map_of xs k = Some v \<Longrightarrow> k \<in> keys xs"
  using map_of_None_keys[of xs k] by auto

lemma prefix_map_of: "prefix xs ys \<Longrightarrow> map_of xs k = Some v \<Longrightarrow> map_of ys k = Some v"
  by (auto simp: prefix_def)

lemma prefix_keys: "prefix xs ys \<Longrightarrow> keys xs \<subseteq> keys ys"
  by (auto simp: prefix_def keys_def)

lemma both_dicts_Some: "both_dicts v cv = Some (da, ca) \<longleftrightarrow> v = VDict da \<and> cv = VDict ca"
  by (cases v; cases cv) auto

lemma both_dicts_None: "both_dicts v cv = None \<longleftrightarrow> \<not> (is_dict v \<and> is_dict cv)"
  by (cases v; cases cv) auto

lemma grows_refl: "grows h h"
  by (simp add: grows_def)

lemma grows_trans: "grows h g \<Longrightarrow> grows g k \<Longrightarrow> grows h k"
  unfolding grows_def by (meson prefix_order.trans)

lemma grows_upd: "grows h (h(c := h c @ xs))"
  by (simp add: grows_def)

lemma grows_map_of: "grows h h' \<Longrightarrow> map_of (h a) k = Some v \<Longrightarrow> map_of (h' a) k = Some v"
  unfolding grows_def by (blast intro: prefix_map_of)

lemma grows_keys: "grows h h' \<Longrightarrow> keys (h a) \<subseteq> keys (h' a)"
  unfolding grows_def by (blast dest: prefix_keys)

lemma flat_Cons: "flat ((k, v) # rest) \<longleftrightarrow> \<not> is_dict v \<and> flat rest"
  by (simp add: flat_def)

subsection \<open>One turn of the loop\<close>

text \<open>What one item of the default does: the iterator notices a change of size; or the key
  is missing and inserted; or it is present and nothing happens; or both values are mappings
  and the merge recurses, returning or raising.\<close>

lemma merge_items_Cons_cases [consumes 1, case_names size ins skip rec_ok rec_err]:
  assumes "merge_items n d sz ((k, v) # rest) c h = (e, h')"
  obtains
    "length (h d) \<noteq> sz" "e = Some RuntimeError" "h' = h"
  | "length (h d) = sz" "map_of (h c) k = None"
      "merge_items n d sz rest c (h(c := h c @ [(k, v)])) = (e, h')"
  | cv where "length (h d) = sz" "map_of (h c) k = Some cv" "\<not> (is_dict v \<and> is_dict cv)"
      "merge_items n d sz rest c h = (e, h')"
  | da ca h1 where "length (h d) = sz" "v = VDict da" "map_of (h c) k = Some (VDict ca)"
      "merge_config n da ca h = (None, h1)" "merge_items n d sz rest c h1 = (e, h')"
  | da ca x where "length (h d) = sz" "v = VDict da" "map_of (h c) k = Some (VDict ca)"
      "merge_config n da ca h = (Some x, h')" "e = Some x"
proof (cases "length (h d) \<noteq> sz")
  case True
  with assms have "e = Some RuntimeError" "h' = h" by auto
  with True show ?thesis by (rule that(1))
next
  case False
  then have sz: "length (h d) = sz" by simp
  show ?thesis
  proof (cases "map_of (h c) k")
    case None
    with assms sz have "merge_items n d sz rest c (h(c := h c @ [(k, v)])) = (e, h')" by simp
    with sz None show ?thesis by (rule that(2))
  next
    case (Some cv)
    show ?thesis
    proof (cases "both_dicts v cv")
      case None
      with assms sz Some have "merge_items n d sz rest c h = (e, h')" by simp
      moreover from None have "\<not> (is_dict v \<and> is_dict cv)" by (simp add: both_dicts_None)
      ultimately show ?thesis using sz Some that(3) by blast
    next
      case bd: (Some p)
      obtain da ca where p: "p = (da, ca)" by (cases p)
      with bd have vc: "v = VDict da" "cv = VDict ca" by (simp_all add: both_dicts_Some)
      obtain e1 h1 where m: "merge_config n da ca h = (e1, h1)" by force
      show ?thesis
      proof (cases e1)
        case None
        with assms sz Some bd p m have "merge_items n d sz rest c h1 = (e, h')" by simp
        with sz vc Some m None that(4) show ?thesis by blast
      next
        case ex: (Some x)
        with assms sz Some bd p m have "e = Some x" "h1 = h'" by simp_all
        with sz vc Some m ex that(5) show ?thesis by blast
      qed
    qed
  qed
qed

subsection \<open>What every merge keeps\<close>

text \<open>A property of stores that inserting a missing key keeps is kept by the merge.\<close>

lemma merge_invariant:
  assumes step: "\<And>h c k v. P h \<Longrightarrow> map_of (h c) k = None \<Longrightarrow> P (h(c := h c @ [(k, v)]))"
  shows "P h \<Longrightarrow> merge_config n d c h = (e, h') \<Longrightarrow> P h'"
    and "P h \<Longrightarrow> merge_items n d sz rest c h = (e, h') \<Longrightarrow> P h'"
proof (induction n d c h and n d sz rest c h arbitrary: e h' and e h'
    rule: merge_config_merge_items.induct)
  case (1 d c h)
  then show ?case by simp
next
  case (2 n d c h)
  then show ?case by simp
next
  case (3 n d sz c h)
  then show ?case by (auto split: if_splits)
next
  case (4 n d sz key "value" rest c h)
  from "4.prems"(2) show ?case
  proof (cases rule: merge_items_Cons_cases)
    case size
    with "4.prems"(1) show ?thesis by simp
  next
    case ins
    have sz: "\<not> length (h d) \<noteq> sz" using ins(1) by simp
    have "P (h(c := h c @ [(key, value)]))" using "4.prems"(1) ins(2) by (rule step)
    then show ?thesis by (rule "4.IH"(1)[OF sz ins(2) _ ins(3)])
  next
    case (skip cv)
    then have "both_dicts value cv = None" by (simp add: both_dicts_None)
    moreover have sz: "\<not> length (h d) \<noteq> sz" using skip(1) by simp
    ultimately show ?thesis using "4.IH"(2)[OF sz skip(2) _ "4.prems"(1) skip(4)] by simp
  next
    case (rec_ok da ca h1)
    have bd: "both_dicts value (VDict ca) = Some (da, ca)" using rec_ok(2) by simp
    have sz: "\<not> length (h d) \<noteq> sz" using rec_ok(1) by simp
    have "P h1" using "4.IH"(3)[OF sz rec_ok(3) bd refl "4.prems"(1) rec_ok(4)] .
    then show ?thesis
      by (rule "4.IH"(4)[OF sz rec_ok(3) bd refl rec_ok(4)[symmetric] refl _ rec_ok(5)])
  next
    case (rec_err da ca x)
    have bd: "both_dicts value (VDict ca) = Some (da, ca)" using rec_err(2) by simp
    have sz: "\<not> length (h d) \<noteq> sz" using rec_err(1) by simp
    show ?thesis using "4.IH"(3)[OF sz rec_err(3) bd refl "4.prems"(1) rec_err(4)] .
  qed
qed

text \<open>Mappings only grow at their end, whatever the arguments and however the call ends.\<close>

lemma merge_grows:
  "merge_config n d c h = (e, h') \<Longrightarrow> grows h h'"
  "merge_items n d sz rest c h = (e, h') \<Longrightarrow> grows h h'"
proof -
  have step: "grows h (g(c := g c @ [(k, v)]))" if "grows h g" for g c k v
    using that grows_upd grows_trans by blast
  show "merge_config n d c h = (e, h') \<Longrightarrow> grows h h'"
    using merge_invariant(1)[where P = "grows h", OF step grows_refl] by blast
  show "merge_items n d sz rest c h = (e, h') \<Longrightarrow> grows h h'"
    using merge_invariant(2)[where P = "grows h", OF step grows_refl] by blast
qed

lemma merge_wf: "wf_store h \<Longrightarrow> merge_config n d c h = (e, h') \<Longrightarrow> wf_store h'"
proof (erule merge_invariant(1)[rotated])
  show "wf_store (h(c := h c @ [(k, v)]))" if "wf_store h" "map_of (h c) k = None" for h c k v
    using that by (auto simp: wf_store_def map_of_eq_None_iff)
qed

subsection \<open>Keys after a merge that returned\<close>

lemma merge_items_keys:
  "merge_items n d sz rest c h = (None, h') \<Longrightarrow> keys rest \<subseteq> keys (h' c)"
proof (induction rest arbitrary: h)
  case Nil
  then show ?case by (simp add: keys_def)
next
  case (Cons x rest)
  obtain k v where x: "x = (k, v)" by (cases x)
  have split: "keys (x # rest) = insert k (keys rest)" using x by (simp add: keys_def)
  from Cons.prems[unfolded x] show ?case
  proof (cases rule: merge_items_Cons_cases)
    case size
    then show ?thesis by simp
  next
    case ins
    have "k \<in> keys ((h(c := h c @ [(k, v)])) c)" by (simp add: keys_def)
    with grows_keys[OF merge_grows(2)[OF ins(3)]] have "k \<in> keys (h' c)" by blast
    with Cons.IH[OF ins(3)] split show ?thesis by simp
  next
    case (skip cv)
    from map_of_keys[OF skip(2)] grows_keys[OF merge_grows(2)[OF skip(4)]]
    have "k \<in> keys (h' c)" by blast
    with Cons.IH[OF skip(4)] split show ?thesis by simp
  next
    case (rec_ok da ca h1)
    from map_of_keys[OF rec_ok(3)] grows_keys[OF merge_grows(1)[OF rec_ok(4)]]
      grows_keys[OF merge_grows(2)[OF rec_ok(5)]]
    have "k \<in> keys (h' c)" by blast
    with Cons.IH[OF rec_ok(5)] split show ?thesis by simp
  next
    case (rec_err da ca x)
    then show ?thesis by simp
  qed
qed

lemma merge_config_keys:
  "merge_config n d c h = (None, h') \<Longrightarrow> keys (h d) \<subseteq> keys (h' c)"
  by (cases n) (auto dest: merge_items_keys)

lemma merge_items_nested_keys:
  "merge_items n d sz rest c h = (None, h') \<Longrightarrow> (k, VDict da) \<in> set rest \<Longrightarrow>
   map_of (h' c) k = Some (VDict ca) \<Longrightarrow> keys (h da) \<subseteq> keys (h' ca)"
proof (induction rest arbitrary: h)
  case Nil
  then show ?case by simp
next
  case (Cons x rest)
  obtain k0 v0 where x: "x = (k0, v0)" by (cases x)
  from Cons.prems(1)[unfolded x] show ?case
  proof (cases rule: merge_items_Cons_cases)
    case size
    then show ?thesis by simp
  next
    case ins
    note g = merge_grows(2)[OF ins(3)]
    show ?thesis
    proof (cases "(k, VDict da) = (k0, v0)")
      case True
      have "map_of ((h(c := h c @ [(k0, v0)])) c) k = Some (VDict da)"
        using True ins(2) by (simp add: map_add_def)
      from grows_map_of[OF g this] Cons.prems(3) have "ca = da" by simp
      moreover have "grows h h'" using g grows_upd grows_trans by blast
      ultimately show ?thesis using grows_keys by blast
    next
      case False
      with Cons.prems(2) x have "(k, VDict da) \<in> set rest" by auto
      from Cons.IH[OF ins(3) this Cons.prems(3)]
      have "keys ((h(c := h c @ [(k0, v0)])) da) \<subseteq> keys (h' ca)" .
      moreover have "keys (h da) \<subseteq> keys ((h(c := h c @ [(k0, v0)])) da)"
        using grows_keys[OF grows_upd] .
      ultimately show ?thesis by blast
    qed
  next
    case (skip cv)
    note g = merge_grows(2)[OF skip(4)]
    show ?thesis
    proof (cases "(k, VDict da) = (k0, v0)")
      case True
      from grows_map_of[OF g skip(2)] Cons.prems(3) True have "cv = VDict ca" by simp
      with skip(3) True show ?thesis by auto
    next
      case False
      with Cons.prems(2) x have "(k, VDict da) \<in> set rest" by auto
      from Cons.IH[OF skip(4) this Cons.prems(3)] show ?thesis .
    qed
  next
    case (rec_ok da0 ca0 h1)
    note g1 = merge_grows(1)[OF rec_ok(4)]
    note g = merge_grows(2)[OF rec_ok(5)]
    show ?thesis
    proof (cases "(k, VDict da) = (k0, v0)")
      case True
      then have eq: "k = k0" "da = da0" using rec_ok(2) by auto
      from grows_map_of[OF g grows_map_of[OF g1 rec_ok(3)]] Cons.prems(3) eq
      have "ca0 = ca" by simp
      with merge_config_keys[OF rec_ok(4)] eq have "keys (h da) \<subseteq> keys (h1 ca)" by simp
      with grows_keys[OF g, of ca] show ?thesis by blast
    next
      case False
      with Cons.prems(2) x have "(k, VDict da) \<in> set rest" by auto
      from Cons.IH[OF rec_ok(5) this Cons.prems(3)] grows_keys[OF g1, of da]
      show ?thesis by blast
    qed
  next
    case (rec_err da ca x)
    then show ?thesis by simp
  qed
qed

lemma merge_config_nested_keys:
  "merge_config n d c h = (None, h') \<Longrightarrow> (k, VDict da) \<in> set (h d) \<Longrightarrow>
   map_of (h' c) k = Some (VDict ca) \<Longrightarrow> keys (h da) \<subseteq> keys (h' ca)"
  by (cases n) (auto dest: merge_items_nested_keys)

subsection \<open>Merging a mapping without nested mappings\<close>

lemma merge_items_flat:
  assumes "flat rest" "length (h d) = sz" "c = d \<longrightarrow> keys rest \<subseteq> keys (h c)"
    and "merge_items n d sz rest c h = (e, h')"
  shows "e = None \<and> (\<forall>a. a \<noteq> c \<longrightarrow> h' a = h a) \<and> set (h' c) \<subseteq> set (h c) \<union> set rest"
  using assms
proof (induction rest arbitrary: h)
  case Nil
  then show ?case by (auto split: if_splits)
next
  case (Cons x rest)
  obtain k v where x: "x = (k, v)" by (cases x)
  have fl: "\<not> is_dict v" "flat rest" using Cons.prems(1) x by (simp_all add: flat_Cons)
  from Cons.prems(4)[unfolded x] show ?case
  proof (cases rule: merge_items_Cons_cases)
    case size
    with Cons.prems(2) show ?thesis by simp
  next
    case ins
    then have cd: "c \<noteq> d" using Cons.prems(3) x by (auto simp: map_of_None_keys keys_def)
    let ?g = "h(c := h c @ [(k, v)])"
    have "e = None \<and> (\<forall>a. a \<noteq> c \<longrightarrow> h' a = ?g a) \<and> set (h' c) \<subseteq> set (?g c) \<union> set rest"
      using cd Cons.prems(2) by (intro Cons.IH[OF fl(2) _ _ ins(3)]) auto
    then show ?thesis using x by auto
  next
    case (skip cv)
    have "e = None \<and> (\<forall>a. a \<noteq> c \<longrightarrow> h' a = h a) \<and> set (h' c) \<subseteq> set (h c) \<union> set rest"
      using Cons.prems(2,3) x by (intro Cons.IH[OF fl(2) _ _ skip(4)]) (auto simp: keys_def)
    then show ?thesis by auto
  next
    case (rec_ok da ca h1)
    with fl show ?thesis by simp
  next
    case (rec_err da ca x)
    with fl show ?thesis by simp
  qed
qed

lemma merge_config_flat:
  assumes "flat (h d)" "merge_config (Suc n) d c h = (e, h')"
  shows "e = None \<and> (\<forall>a. a \<noteq> c \<longrightarrow> h' a = h a) \<and> set (h' c) \<subseteq> set (h c) \<union> set (h d)"
  using merge_items_flat[of "h d" h d "length (h d)" c n e h'] assms by simp

text \<open>A merge that finds every key, and every pair of mappings already merged, changes
  nothing.\<close>

lemma merge_items_noop:
  assumes "length (h d) = sz"
    and "\<forall>(k, v) \<in> set rest. \<exists>cv. map_of (h c) k = Some cv \<and>
           (\<forall>da ca. v = VDict da \<and> cv = VDict ca \<longrightarrow> merge_config n da ca h = (None, h))"
  shows "merge_items n d sz rest c h = (None, h)"
  using assms(2)
proof (induction rest)
  case Nil
  then show ?case using assms(1) by simp
next
  case (Cons x rest)
  obtain k v where x: "x = (k, v)" by (cases x)
  from Cons.prems x obtain cv where cv: "map_of (h c) k = Some cv"
    and rec: "\<forall>da ca. v = VDict da \<and> cv = VDict ca \<longrightarrow> merge_config n da ca h = (None, h)"
    by auto
  have IH: "merge_items n d sz rest c h = (None, h)" using Cons by simp
  show ?case
  proof (cases "both_dicts v cv")
    case None
    then show ?thesis using x cv IH assms(1) by simp
  next
    case (Some p)
    obtain da ca where p: "p = (da, ca)" by (cases p)
    with Some have "v = VDict da" "cv = VDict ca" by (simp_all add: both_dicts_Some)
    with rec have "merge_config n da ca h = (None, h)" by simp
    then show ?thesis using x cv IH assms(1) Some p by simp
  qed
qed

lemma merge_config_flat_noop:
  assumes "flat (h d)" "keys (h d) \<subseteq> keys (h c)"
  shows "merge_config (Suc n) d c h = (None, h)"
proof -
  have "\<forall>(k, v) \<in> set (h d). \<exists>cv. map_of (h c) k = Some cv \<and>
           (\<forall>da ca. v = VDict da \<and> cv = VDict ca \<longrightarrow> merge_config n da ca h = (None, h))"
  proof (clarify)
    fix k v assume kv: "(k, v) \<in> set (h d)"
    then have "k \<in> keys (h c)" using assms(2) by (force simp: keys_def)
    then obtain cv where "map_of (h c) k = Some cv"
      by (metis map_of_None_keys not_Some_eq)
    moreover have "\<not> is_dict v" using assms(1) kv by (auto simp: flat_def)
    ultimately show "\<exists>cv. map_of (h c) k = Some cv \<and>
           (\<forall>da ca. v = VDict da \<and> cv = VDict ca \<longrightarrow> merge_config n da ca h = (None, h))"
      by auto
  qed
  then show ?thesis by (simp add: merge_items_noop)
qed

subsection \<open>Merging the default configuration\<close>

lemma root_defaults_dict:
  "(k, VDict da) \<in> set root_defaults \<Longrightarrow> k = ''app'' \<and> da = 1 \<or> k = ''system'' \<and> da = 2"
  by (auto simp: root_defaults_def)

lemma root_defaults_sub:
  "(k, v) \<in> set root_defaults \<Longrightarrow> k \<in> {''app'', ''system''} \<Longrightarrow> is_dict v"
  by (auto simp: root_defaults_def)

lemma flat_app_defaults: "flat app_defaults"
  by (simp add: flat_def app_defaults_def)

lemma flat_system_defaults: "flat system_defaults"
  by (simp add: flat_def system_defaults_def)

lemma sub_keys:
  "''app'' \<notin> keys app_defaults" "''system'' \<notin> keys app_defaults"
  "''app'' \<notin> keys system_defaults" "''system'' \<notin> keys system_defaults"
  by (simp_all add: keys_def app_defaults_def system_defaults_def)

lemma has_default_eq:
  "has_default h \<Longrightarrow> \<forall>a \<in> default_addrs. h' a = h a \<Longrightarrow> has_default h'"
  by (simp add: has_default_def default_addrs_def)

lemma default_items:
  assumes "has_default g" "c \<notin> default_addrs"
    and "set rest \<subseteq> set root_defaults" "distinct (map fst rest)"
    and "\<forall>k \<in> keys rest \<inter> {''app'', ''system''}.
           \<forall>b. map_of (g c) k = Some (VDict b) \<longrightarrow> b \<notin> default_addrs"
    and "merge_items (Suc m) 0 3 rest c g = (e, h')"
  shows "e = None \<and> has_default h' \<and>
    (\<forall>k \<in> keys rest \<inter> {''app'', ''system''}. map_of (g c) k = None \<longrightarrow>
        (\<exists>b. map_of (h' c) k = Some (VDict b))) \<and>
    (\<forall>a. a \<noteq> c \<and> (\<forall>k \<in> keys rest \<inter> {''app'', ''system''}. map_of (g c) k \<noteq> Some (VDict a)) \<longrightarrow>
        h' a = g a)"
  using assms
proof (induction rest arbitrary: g)
  case Nil
  then show ?case by (auto simp: keys_def has_default_def root_defaults_def split: if_splits)
next
  case (Cons x rest)
  obtain k v where x: "x = (k, v)" by (cases x)
  have kv: "(k, v) \<in> set root_defaults" and sub: "set rest \<subseteq> set root_defaults"
    and dist: "distinct (map fst rest)" and knew: "k \<notin> keys rest"
    using Cons.prems(3,4) x by (auto simp: keys_def)
  have len: "length (g 0) = 3" using Cons.prems(1) by (simp add: has_default_def root_defaults_def)
  note kids = Cons.prems(5)
  from Cons.prems(6)[unfolded x] show ?case
  proof (cases rule: merge_items_Cons_cases)
    case size
    with len show ?thesis by simp
  next
    case ins
    let ?g = "g(c := g c @ [(k, v)])"
    have d1: "has_default ?g" using Cons.prems(1,2) by (auto intro: has_default_eq)
    have same: "map_of (?g c) k' = map_of (g c) k'" if "k' \<in> keys rest" for k'
      using that knew by (auto simp: map_add_def split: option.splits)
    have k1: "\<forall>k \<in> keys rest \<inter> {''app'', ''system''}.
        \<forall>b. map_of (?g c) k = Some (VDict b) \<longrightarrow> b \<notin> default_addrs"
    proof (intro ballI allI impI)
      fix k' b assume k': "k' \<in> keys rest \<inter> {''app'', ''system''}"
        and m: "map_of (?g c) k' = Some (VDict b)"
      from k' have "k' \<in> keys (x # rest) \<inter> {''app'', ''system''}" by (auto simp: keys_def)
      moreover from k' m same have "map_of (g c) k' = Some (VDict b)" by simp
      ultimately show "b \<notin> default_addrs" using kids by blast
    qed
    note IH0 = Cons.IH[OF d1 Cons.prems(2) sub dist k1 ins(3)]
    note IH = IH0[THEN conjunct1] IH0[THEN conjunct2, THEN conjunct1]
      IH0[THEN conjunct2, THEN conjunct2, THEN conjunct1]
      IH0[THEN conjunct2, THEN conjunct2, THEN conjunct2]
    have here: "\<exists>b. map_of (h' c) k = Some (VDict b)" if "k \<in> {''app'', ''system''}"
    proof -
      from root_defaults_sub[OF kv that] obtain b where "v = VDict b" by (cases v) auto
      moreover have "map_of (?g c) k = Some v" using ins(2) by (simp add: map_add_def)
      ultimately show ?thesis using grows_map_of[OF merge_grows(2)[OF ins(3)]] by blast
    qed
    have main3: "e = None \<and> has_default h' \<and>
      (\<forall>k \<in> keys (x # rest) \<inter> {''app'', ''system''}. map_of (g c) k = None \<longrightarrow>
          (\<exists>b. map_of (h' c) k = Some (VDict b)))"
    proof (intro conjI ballI impI)
      fix k' assume k': "k' \<in> keys (x # rest) \<inter> {''app'', ''system''}" and n: "map_of (g c) k' = None"
      show "\<exists>b. map_of (h' c) k' = Some (VDict b)"
      proof (cases "k' = k")
        case True
        with here k' show ?thesis by blast
      next
        case False
        with k' x have "k' \<in> keys rest \<inter> {''app'', ''system''}" by (auto simp: keys_def)
        moreover from this have "map_of (?g c) k' = None" using same n by simp
        ultimately show ?thesis using IH(3) by blast
      qed
    qed (use IH(1,2) in simp_all)
    have fr4: "\<forall>a. a \<noteq> c \<and> (\<forall>k \<in> keys (x # rest) \<inter> {''app'', ''system''}. map_of (g c) k \<noteq> Some (VDict a)) \<longrightarrow>
        h' a = g a"
    proof (intro allI impI)
      fix a
      assume a: "a \<noteq> c \<and> (\<forall>k \<in> keys (x # rest) \<inter> {''app'', ''system''}. map_of (g c) k \<noteq> Some (VDict a))"
      have "\<forall>k \<in> keys rest \<inter> {''app'', ''system''}. map_of (?g c) k \<noteq> Some (VDict a)"
      proof
        fix k' assume k': "k' \<in> keys rest \<inter> {''app'', ''system''}"
        then have "k' \<in> keys (x # rest) \<inter> {''app'', ''system''}" by (auto simp: keys_def)
        with a have "map_of (g c) k' \<noteq> Some (VDict a)" by blast
        with same k' show "map_of (?g c) k' \<noteq> Some (VDict a)" by simp
      qed
      with IH(4) a have "h' a = ?g a" by blast
      with a show "h' a = g a" by simp
    qed
    show ?thesis
      by (intro conjI main3[THEN conjunct1] main3[THEN conjunct2, THEN conjunct1]
          main3[THEN conjunct2, THEN conjunct2] fr4)
  next
    case (skip cv)
    have k1: "\<forall>k \<in> keys rest \<inter> {''app'', ''system''}.
        \<forall>b. map_of (g c) k = Some (VDict b) \<longrightarrow> b \<notin> default_addrs"
      using kids by (auto simp: keys_def)
    note IH0 = Cons.IH[OF Cons.prems(1,2) sub dist k1 skip(4)]
    note IH = IH0[THEN conjunct1] IH0[THEN conjunct2, THEN conjunct1]
      IH0[THEN conjunct2, THEN conjunct2, THEN conjunct1]
      IH0[THEN conjunct2, THEN conjunct2, THEN conjunct2]
    have main3: "e = None \<and> has_default h' \<and>
      (\<forall>k \<in> keys (x # rest) \<inter> {''app'', ''system''}. map_of (g c) k = None \<longrightarrow>
          (\<exists>b. map_of (h' c) k = Some (VDict b)))"
    proof (intro conjI ballI impI)
      fix k' assume k': "k' \<in> keys (x # rest) \<inter> {''app'', ''system''}" and n: "map_of (g c) k' = None"
      with skip(2) have "k' \<noteq> k" by auto
      with k' x have "k' \<in> keys rest \<inter> {''app'', ''system''}" by (auto simp: keys_def)
      then show "\<exists>b. map_of (h' c) k' = Some (VDict b)" using IH(3) n by blast
    qed (use IH(1,2) in simp_all)
    have fr4: "\<forall>a. a \<noteq> c \<and> (\<forall>k \<in> keys (x # rest) \<inter> {''app'', ''system''}. map_of (g c) k \<noteq> Some (VDict a)) \<longrightarrow>
        h' a = g a"
    proof (intro allI impI)
      fix a
      assume a: "a \<noteq> c \<and> (\<forall>k \<in> keys (x # rest) \<inter> {''app'', ''system''}. map_of (g c) k \<noteq> Some (VDict a))"
      have "\<forall>k \<in> keys rest \<inter> {''app'', ''system''}. map_of (g c) k \<noteq> Some (VDict a)"
      proof
        fix k' assume k': "k' \<in> keys rest \<inter> {''app'', ''system''}"
        then have "k' \<in> keys (x # rest) \<inter> {''app'', ''system''}" by (auto simp: keys_def)
        with a show "map_of (g c) k' \<noteq> Some (VDict a)" by blast
      qed
      with IH(4) a show "h' a = g a" by blast
    qed
    show ?thesis
      by (intro conjI main3[THEN conjunct1] main3[THEN conjunct2, THEN conjunct1]
          main3[THEN conjunct2, THEN conjunct2] fr4)
  next
    case (rec_ok da ca g1)
    have da: "da = 1 \<or> da = 2" and kk: "k \<in> {''app'', ''system''}"
      using kv rec_ok(2) root_defaults_dict by blast+
    have ca: "ca \<notin> default_addrs" using kids rec_ok(3) x kk by (auto simp: keys_def)
    have fl: "flat (g da)" "''app'' \<notin> keys (g da)" "''system'' \<notin> keys (g da)"
      using da Cons.prems(1) flat_app_defaults flat_system_defaults sub_keys
      by (auto simp: has_default_def)
    from merge_config_flat[OF fl(1) rec_ok(4)]
    have fr: "\<forall>a. a \<noteq> ca \<longrightarrow> g1 a = g a" and ent: "set (g1 ca) \<subseteq> set (g ca) \<union> set (g da)"
      by auto
    note gr = merge_grows(1)[OF rec_ok(4)]
    have d1: "has_default g1" using Cons.prems(1) fr ca by (auto intro: has_default_eq)
    have same: "map_of (g1 c) k' = map_of (g c) k'" if "k' \<in> {''app'', ''system''}" for k'
    proof (cases "map_of (g c) k'")
      case (Some w)
      then show ?thesis using grows_map_of[OF gr] by simp
    next
      case None
      have "k' \<notin> keys (g1 c)"
      proof (cases "c = ca")
        case True
        have "keys (g1 ca) \<subseteq> keys (g ca) \<union> keys (g da)" using ent by (auto simp: keys_def)
        then show ?thesis using None True that fl(2,3) by (auto simp: map_of_None_keys)
      next
        case False
        then show ?thesis using fr None by (simp add: map_of_None_keys)
      qed
      then have "map_of (g1 c) k' = None" by (simp add: map_of_None_keys)
      then show ?thesis using None by simp
    qed
    have k1: "\<forall>k \<in> keys rest \<inter> {''app'', ''system''}.
        \<forall>b. map_of (g1 c) k = Some (VDict b) \<longrightarrow> b \<notin> default_addrs"
    proof (intro ballI allI impI)
      fix k' b assume k': "k' \<in> keys rest \<inter> {''app'', ''system''}"
        and m: "map_of (g1 c) k' = Some (VDict b)"
      show "b \<notin> default_addrs"
      proof (cases "map_of (g c) k'")
        case (Some w)
        with grows_map_of[OF gr Some] m have "map_of (g c) k' = Some (VDict b)" by simp
        then show ?thesis using kids k' x by (auto simp: keys_def)
      next
        case None
        have "(k', VDict b) \<in> set (g1 c)" using m by (rule map_of_SomeD)
        moreover have "(k', VDict b) \<notin> set (g da)" using fl(1) by (auto simp: flat_def)
        moreover have "(k', VDict b) \<notin> set (g c)" using None by (force simp: map_of_None_keys keys_def)
        ultimately have "c \<noteq> ca" using ent by auto
        then show ?thesis using fr m None by simp
      qed
    qed
    note IH0 = Cons.IH[OF d1 Cons.prems(2) sub dist k1 rec_ok(5)]
    note IH = IH0[THEN conjunct1] IH0[THEN conjunct2, THEN conjunct1]
      IH0[THEN conjunct2, THEN conjunct2, THEN conjunct1]
      IH0[THEN conjunct2, THEN conjunct2, THEN conjunct2]
    have main3: "e = None \<and> has_default h' \<and>
      (\<forall>k \<in> keys (x # rest) \<inter> {''app'', ''system''}. map_of (g c) k = None \<longrightarrow>
          (\<exists>b. map_of (h' c) k = Some (VDict b)))"
    proof (intro conjI ballI impI)
      fix k' assume k': "k' \<in> keys (x # rest) \<inter> {''app'', ''system''}" and n: "map_of (g c) k' = None"
      with rec_ok(3) have "k' \<noteq> k" by auto
      with k' x have kr: "k' \<in> keys rest \<inter> {''app'', ''system''}" by (auto simp: keys_def)
      then have "map_of (g1 c) k' = None" using same n by simp
      then show "\<exists>b. map_of (h' c) k' = Some (VDict b)" using IH(3) kr by blast
    qed (use IH(1,2) in simp_all)
    have fr4: "\<forall>a. a \<noteq> c \<and> (\<forall>k \<in> keys (x # rest) \<inter> {''app'', ''system''}. map_of (g c) k \<noteq> Some (VDict a)) \<longrightarrow>
        h' a = g a"
    proof (intro allI impI)
      fix a
      assume a: "a \<noteq> c \<and> (\<forall>k \<in> keys (x # rest) \<inter> {''app'', ''system''}. map_of (g c) k \<noteq> Some (VDict a))"
      have "k \<in> keys (x # rest) \<inter> {''app'', ''system''}" using kk x by (simp add: keys_def)
      with a rec_ok(3) have nca: "a \<noteq> ca" by auto
      have "\<forall>k \<in> keys rest \<inter> {''app'', ''system''}. map_of (g1 c) k \<noteq> Some (VDict a)"
      proof
        fix k' assume k': "k' \<in> keys rest \<inter> {''app'', ''system''}"
        then have "k' \<in> keys (x # rest) \<inter> {''app'', ''system''}" by (auto simp: keys_def)
        with a have "map_of (g c) k' \<noteq> Some (VDict a)" by blast
        with same[of k'] k' show "map_of (g1 c) k' \<noteq> Some (VDict a)" by simp
      qed
      with IH(4) a have "h' a = g1 a" by blast
      with fr nca show "h' a = g a" by simp
    qed
    show ?thesis
      by (intro conjI main3[THEN conjunct1] main3[THEN conjunct2, THEN conjunct1]
          main3[THEN conjunct2, THEN conjunct2] fr4)
  next
    case (rec_err da ca y)
    have da: "da = 1 \<or> da = 2" using kv rec_err(2) root_defaults_dict by blast
    have fl: "flat (g da)"
      using da Cons.prems(1) flat_app_defaults flat_system_defaults
      by (auto simp: has_default_def)
    from merge_config_flat[OF fl rec_err(4)] show ?thesis by simp
  qed
qed

lemma default_merge_frame:
  assumes "has_default h" "loaded h c" "2 \<le> n"
  shows "\<exists>h'. merge_config n 0 c h = (None, h') \<and> has_default h' \<and>
    (\<forall>k \<in> {''app'', ''system''}. map_of (h c) k = None \<longrightarrow>
        (\<exists>b. map_of (h' c) k = Some (VDict b))) \<and>
    (\<forall>a. a \<noteq> c \<and> map_of (h c) ''app'' \<noteq> Some (VDict a) \<and>
         map_of (h c) ''system'' \<noteq> Some (VDict a) \<longrightarrow> h' a = h a)"
proof -
  obtain m where n: "n = Suc (Suc m)" using two_le_Suc[OF assms(3)] by blast
  obtain e h' where r: "merge_items (Suc m) 0 3 root_defaults c h = (e, h')" by force
  have k: "\<forall>k \<in> keys root_defaults \<inter> {''app'', ''system''}.
      \<forall>b. map_of (h c) k = Some (VDict b) \<longrightarrow> b \<notin> default_addrs"
    using assms(2) by (auto simp: loaded_def)
  have c: "c \<notin> default_addrs" using assms(2) by (simp add: loaded_def)
  have "distinct (map fst root_defaults)" by (simp add: root_defaults_def)
  note D0 = default_items[OF assms(1) c subset_refl this k r]
  note D = D0[THEN conjunct1] D0[THEN conjunct2, THEN conjunct1]
    D0[THEN conjunct2, THEN conjunct2, THEN conjunct1]
    D0[THEN conjunct2, THEN conjunct2, THEN conjunct2]
  have both: "keys root_defaults \<inter> {''app'', ''system''} = {''app'', ''system''}"
    by (auto simp: keys_def root_defaults_def)
  have sub: "\<forall>k \<in> {''app'', ''system''}. map_of (h c) k = None \<longrightarrow>
      (\<exists>b. map_of (h' c) k = Some (VDict b))"
    using D(3) unfolding both .
  have frame: "\<forall>a. a \<noteq> c \<and> map_of (h c) ''app'' \<noteq> Some (VDict a) \<and>
      map_of (h c) ''system'' \<noteq> Some (VDict a) \<longrightarrow> h' a = h a"
    using D(4) unfolding both by simp
  have "merge_config n 0 c h = (e, h')"
  proof -
    have "h 0 = root_defaults" "length root_defaults = 3"
      using assms(1) by (simp_all add: has_default_def root_defaults_def)
    then show ?thesis using r unfolding n by (simp only: merge_config.simps)
  qed
  with D(1) have "merge_config n 0 c h = (None, h')" by simp
  with D(2) sub frame show ?thesis by (intro exI[of _ h'] conjI)
qed

lemma default_merge:
  assumes "has_default h" "loaded h c" "2 \<le> n"
  obtains h' where "merge_config n 0 c h = (None, h')" "has_default h'"
    "\<And>k. k \<in> {''app'', ''system''} \<Longrightarrow> map_of (h c) k = None \<Longrightarrow> \<exists>b. map_of (h' c) k = Some (VDict b)"
proof -
  from default_merge_frame[OF assms] obtain h' where
    "merge_config n 0 c h = (None, h')" "has_default h'"
    "\<forall>k \<in> {''app'', ''system''}. map_of (h c) k = None \<longrightarrow>
        (\<exists>b. map_of (h' c) k = Some (VDict b))" by blast
  then show ?thesis using that[of h'] by blast
qed

lemma default_paths:
  assumes "has_default h" "has_path h 0 ks"
  shows "ks = [] \<or> (\<exists>k. ks = [k] \<and> k \<in> keys (h 0)) \<or>
     (\<exists>k da k2. ks = [k, k2] \<and> (k, VDict da) \<in> set (h 0) \<and> k2 \<in> keys (h da))"
proof (cases ks)
  case Nil
  then show ?thesis by simp
next
  case (Cons k ks')
  with assms(2) obtain v where v: "map_of (h 0) k = Some v"
    and rest: "ks' = [] \<or> (\<exists>b. v = VDict b \<and> has_path h b ks')"
    by (auto split: option.splits val.splits)
  have k: "k \<in> keys (h 0)" using v by (rule map_of_keys)
  show ?thesis
  proof (cases ks')
    case Nil
    with Cons k show ?thesis by simp
  next
    case (Cons k2 ks'')
    with rest obtain b where b: "v = VDict b" "has_path h b (k2 # ks'')" by auto
    have in0: "(k, VDict b) \<in> set (h 0)" using v b(1) by (auto dest: map_of_SomeD)
    then have "b = 1 \<or> b = 2" using assms(1) root_defaults_dict by (auto simp: has_default_def)
    then have fl: "flat (h b)"
      using assms(1) flat_app_defaults flat_system_defaults by (auto simp: has_default_def)
    from b(2) obtain v2 where v2: "map_of (h b) k2 = Some v2"
      and r2: "ks'' = [] \<or> is_dict v2" by (auto split: option.splits val.splits)
    have "\<not> is_dict v2" using fl map_of_SomeD[OF v2] by (auto simp: flat_def)
    with r2 have "ks'' = []" by simp
    moreover have "k2 \<in> keys (h b)" using v2 by (rule map_of_keys)
    ultimately show ?thesis using in0 \<open>ks = k # ks'\<close> Cons by auto
  qed
qed

subsection \<open>Key paths after merging the default, and what the file holds after loading\<close>

lemma default_merge_paths:
  assumes "has_default h" "loaded h c" "2 \<le> n"
    and "has_path h 0 ks" "\<not> blocked h c ks"
  shows "\<exists>h'. merge_config n 0 c h = (None, h') \<and> has_path h' c ks"
proof -
  from default_merge[OF assms(1-3)] obtain h' where
    m: "merge_config n 0 c h = (None, h')" and
    sub: "\<And>k. k \<in> {''app'', ''system''} \<Longrightarrow> map_of (h c) k = None \<Longrightarrow>
            \<exists>b. map_of (h' c) k = Some (VDict b)"
    by blast
  note top = merge_config_keys[OF m]
  have present: "\<exists>v. map_of (h' c) k = Some v" if "k \<in> keys (h 0)" for k
    using that top by (blast intro: keys_map_of)
  from default_paths[OF assms(1,4)] have "has_path h' c ks"
  proof (elim disjE exE conjE)
    assume "ks = []"
    then show ?thesis by simp
  next
    fix k assume "ks = [k]" "k \<in> keys (h 0)"
    with present[of k] show ?thesis by auto
  next
    fix k da k2
    assume ks: "ks = [k, k2]" and kd: "(k, VDict da) \<in> set (h 0)" and k2: "k2 \<in> keys (h da)"
    have kk: "k \<in> {''app'', ''system''}"
      using kd assms(1) root_defaults_dict by (auto simp: has_default_def)
    have "\<exists>b. map_of (h' c) k = Some (VDict b)"
    proof (cases "map_of (h c) k")
      case None
      with sub kk show ?thesis by blast
    next
      case (Some v)
      with assms(5) ks obtain b where "v = VDict b" by (cases v) auto
      with Some grows_map_of[OF merge_grows(1)[OF m]] show ?thesis by blast
    qed
    then obtain b where b: "map_of (h' c) k = Some (VDict b)" ..
    from merge_config_nested_keys[OF m kd b] k2 have "k2 \<in> keys (h' b)" by blast
    then obtain v2 where "map_of (h' b) k2 = Some v2" by (blast dest: keys_map_of)
    with b ks show ?thesis by simp
  qed
  with m show ?thesis by blast
qed

text \<open>A file that holds a non-empty mapping: \<^verbatim>\<open>load_config\<close> returns that mapping, merged,
  and has written it to the file.\<close>

lemma load_config_mapping:
  assumes "has_default h" "loaded h c" "2 \<le> n" "h c \<noteq> []"
    and "has_path h 0 ks" "\<not> blocked h c ks"
  shows "\<exists>h'. load_config n (Some (VDict c)) fresh h = (Inr (VDict c), h', [Dump (VDict c)]) \<and>
              has_path h' c ks"
proof -
  from default_merge_paths[OF assms(1-3,5,6)] obtain h' where
    "merge_config n 0 c h = (None, h')" "has_path h' c ks" by blast
  then show ?thesis using assms(4) by (simp add: load_config_def Let_def)
qed

text \<open>An empty file (the loader returns \<^verbatim>\<open>None\<close>), or one that holds an empty or false
  value: \<^verbatim>\<open>load_config\<close> starts from a new empty mapping, and the file then holds every key
  path of the default schema.\<close>

lemma load_config_empty:
  assumes "has_default h" "2 \<le> n" "h fresh = []" "\<not> truthy h v"
    and "has_path h 0 ks"
  shows "\<exists>h'. load_config n (Some v) fresh h = (Inr (VDict fresh), h', [Dump (VDict fresh)]) \<and>
              has_path h' fresh ks"
proof -
  have same: "h(fresh := []) = h" using assms(3) by (metis fun_upd_triv)
  have "h 0 \<noteq> []" "h 1 \<noteq> []" "h 2 \<noteq> []"
    using assms(1)
    by (simp_all add: has_default_def root_defaults_def app_defaults_def system_defaults_def)
  with assms(3) have "fresh \<noteq> 0" "fresh \<noteq> 1" "fresh \<noteq> 2" by metis+
  then have "fresh \<notin> default_addrs" by (simp add: default_addrs_def)
  then have l: "loaded h fresh" using assms(3) by (simp add: loaded_def)
  have b: "\<not> blocked h fresh ks" using assms(3) by (cases ks) simp_all
  from default_merge_paths[OF assms(1) l assms(2,5) b] obtain h' where
    "merge_config n 0 fresh h = (None, h')" "has_path h' fresh ks" by blast
  then show ?thesis using assms(4) same by (simp add: load_config_def Let_def)
qed

subsection \<open>What a merge into a tree can write\<close>

text \<open>For any default: when the mappings nested in \<^verbatim>\<open>current\<close>, as far down as the call
  can go, are pairwise different objects, the merge writes to those objects only.\<close>

lemma nested_Suc: "nested (Suc n) h a = a # concat (map (kid (nested n h)) (h a))"
  by simp

lemma kid_VDict: "kid (nested n h) (k, VDict b) = nested n h b"
  by (simp add: kid_def)

lemma distinct_concat_disjoint:
  "distinct (concat (map f xs)) \<Longrightarrow> x \<in> set xs \<Longrightarrow> y \<in> set xs \<Longrightarrow> x \<noteq> y \<Longrightarrow>
   set (f x) \<inter> set (f y) = {}"
  by (induction xs) auto

lemma distinct_concat_each:
  "distinct (concat (map f xs)) \<Longrightarrow> x \<in> set xs \<Longrightarrow> distinct (f x)"
  by (induction xs) auto

lemma nested_cong:
  "\<forall>a \<in> set (nested n h b). g a = h a \<Longrightarrow> nested n g b = nested n h b"
proof (induction n arbitrary: b)
  case 0
  then show ?case by simp
next
  case (Suc n)
  have b: "g b = h b" using Suc.prems by simp
  have "kid (nested n g) e = kid (nested n h) e" if "e \<in> set (h b)" for e
  proof (cases "snd e")
    case (VDict b')
    have "set (nested n h b') \<subseteq> set (nested (Suc n) h b)"
      using that VDict by (force simp: nested_Suc kid_def)
    with Suc.prems have "\<forall>a \<in> set (nested n h b'). g a = h a" by blast
    from Suc.IH[OF this] VDict show ?thesis by (simp add: kid_def)
  qed (simp_all add: kid_def)
  then show ?case unfolding nested_Suc b by (simp cong: map_cong)
qed

lemma frame_items:
  assumes IH: "\<And>d c g e h'. wf_store g \<Longrightarrow> distinct (nested n g c) \<Longrightarrow>
      merge_config n d c g = (e, h') \<Longrightarrow> \<forall>a. a \<notin> set (nested n g c) \<longrightarrow> h' a = g a"
    and wf: "wf_store h" and tree: "distinct (nested (Suc n) h c)"
  shows "wf_store g \<Longrightarrow> distinct (map fst rest) \<Longrightarrow>
     \<exists>ext. g c = h c @ ext \<and> keys ext \<inter> keys rest = {} \<Longrightarrow>
     \<forall>k b. (k, VDict b) \<in> set (h c) \<and> k \<in> keys rest \<longrightarrow> (\<forall>a \<in> set (nested n h b). g a = h a) \<Longrightarrow>
     \<forall>a. a \<notin> set (nested (Suc n) h c) \<longrightarrow> g a = h a \<Longrightarrow>
     merge_items n d sz rest c g = (e, h') \<Longrightarrow>
     \<forall>a. a \<notin> set (nested (Suc n) h c) \<longrightarrow> h' a = h a"
proof (induction rest arbitrary: g)
  case Nil
  then show ?case by (auto split: if_splits)
next
  case (Cons x rest)
  obtain k v where x: "x = (k, v)" by (cases x)
  have dist: "distinct (map fst rest)" and knew: "k \<notin> keys rest"
    using Cons.prems(2) x by (auto simp: keys_def)
  from Cons.prems(3) obtain ext where ext: "g c = h c @ ext" "keys ext \<inter> keys (x # rest) = {}"
    by blast
  have kext: "k \<notin> keys ext" and ext': "keys ext \<inter> keys rest = {}"
    using ext(2) x by (auto simp: keys_def)
  note kids = Cons.prems(4)
  note frame = Cons.prems(5)
  have kids': "\<forall>k b. (k, VDict b) \<in> set (h c) \<and> k \<in> keys rest \<longrightarrow> (\<forall>a \<in> set (nested n h b). g a = h a)"
    using kids by (auto simp: keys_def)
  have c_out: "c \<notin> set (nested n h b)" if "(k', VDict b) \<in> set (h c)" for k' b
  proof -
    have "set (nested n h b) \<subseteq> set (concat (map (kid (nested n h)) (h c)))"
      using that by (force simp: kid_def)
    then show ?thesis using tree by (auto simp: nested_Suc)
  qed
  from Cons.prems(6)[unfolded x] show ?case
  proof (cases rule: merge_items_Cons_cases)
    case size
    with frame show ?thesis by simp
  next
    case ins
    let ?g = "g(c := g c @ [(k, v)])"
    have 1: "wf_store ?g" using Cons.prems(1) ins(2)
      by (auto simp: wf_store_def map_of_eq_None_iff)
    have 3: "\<exists>ext. ?g c = h c @ ext \<and> keys ext \<inter> keys rest = {}"
      using ext(1) ext' knew by (intro exI[of _ "ext @ [(k, v)]"]) (auto simp: keys_def)
    have 4: "\<forall>k b. (k, VDict b) \<in> set (h c) \<and> k \<in> keys rest \<longrightarrow> (\<forall>a \<in> set (nested n h b). ?g a = h a)"
      using kids' c_out by auto
    have 5: "\<forall>a. a \<notin> set (nested (Suc n) h c) \<longrightarrow> ?g a = h a"
      using frame by (simp add: nested_Suc)
    from Cons.IH[OF 1 dist 3 4 5 ins(3)] show ?thesis .
  next
    case (skip cv)
    have 3: "\<exists>ext. g c = h c @ ext \<and> keys ext \<inter> keys rest = {}" using ext(1) ext' by blast
    from Cons.IH[OF Cons.prems(1) dist 3 kids' frame skip(4)] show ?thesis .
  next
    case (rec_ok da ca g1)
    have inh: "(k, VDict ca) \<in> set (h c)"
    proof -
      have "(k, VDict ca) \<in> set (g c)" using rec_ok(3) by (rule map_of_SomeD)
      then show ?thesis using ext(1) kext by (force simp: keys_def)
    qed
    have same: "\<forall>a \<in> set (nested n h ca). g a = h a"
      using kids inh x by (auto simp: keys_def)
    have reg: "nested n g ca = nested n h ca" using same by (rule nested_cong)
    have "distinct (kid (nested n h) (k, VDict ca))"
      using tree inh by (auto simp: nested_Suc intro: distinct_concat_each)
    then have dreg: "distinct (nested n g ca)" by (simp add: reg kid_VDict)
    from IH[OF Cons.prems(1) dreg rec_ok(4)] reg
    have fr1: "\<forall>a. a \<notin> set (nested n h ca) \<longrightarrow> g1 a = g a" by simp
    have sub: "set (nested n h ca) \<subseteq> set (nested (Suc n) h c)"
      using inh by (force simp: nested_Suc kid_def)
    have 1: "wf_store g1" using Cons.prems(1) rec_ok(4) by (rule merge_wf)
    have 3: "\<exists>ext. g1 c = h c @ ext \<and> keys ext \<inter> keys rest = {}"
      using ext(1) ext' fr1 c_out[OF inh] by auto
    have 4: "\<forall>k' b. (k', VDict b) \<in> set (h c) \<and> k' \<in> keys rest \<longrightarrow> (\<forall>a \<in> set (nested n h b). g1 a = h a)"
    proof (intro allI impI ballI)
      fix k' b a assume kb: "(k', VDict b) \<in> set (h c) \<and> k' \<in> keys rest" and a: "a \<in> set (nested n h b)"
      then have ne: "(k', VDict b) \<noteq> (k, VDict ca)" using knew by auto
      have "distinct (concat (map (kid (nested n h)) (h c)))" using tree by (simp add: nested_Suc)
      from distinct_concat_disjoint[OF this _ inh ne] kb
      have "set (nested n h b) \<inter> set (nested n h ca) = {}" by (simp add: kid_VDict)
      with a have "a \<notin> set (nested n h ca)" by blast
      with fr1 have "g1 a = g a" by simp
      also have "g a = h a" using kids' kb a by blast
      finally show "g1 a = h a" .
    qed
    have 5: "\<forall>a. a \<notin> set (nested (Suc n) h c) \<longrightarrow> g1 a = h a"
      using frame fr1 sub by (metis subsetD)
    from Cons.IH[OF 1 dist 3 4 5 rec_ok(5)] show ?thesis .
  next
    case (rec_err da ca y)
    have inh: "(k, VDict ca) \<in> set (h c)"
    proof -
      have "(k, VDict ca) \<in> set (g c)" using rec_err(3) by (rule map_of_SomeD)
      then show ?thesis using ext(1) kext by (force simp: keys_def)
    qed
    have same: "\<forall>a \<in> set (nested n h ca). g a = h a"
      using kids inh x by (auto simp: keys_def)
    have reg: "nested n g ca = nested n h ca" using same by (rule nested_cong)
    have "distinct (kid (nested n h) (k, VDict ca))"
      using tree inh by (auto simp: nested_Suc intro: distinct_concat_each)
    then have dreg: "distinct (nested n g ca)" by (simp add: reg kid_VDict)
    from IH[OF Cons.prems(1) dreg rec_err(4)] reg
    have fr1: "\<forall>a. a \<notin> set (nested n h ca) \<longrightarrow> h' a = g a" by simp
    have sub: "set (nested n h ca) \<subseteq> set (nested (Suc n) h c)"
      using inh by (force simp: nested_Suc kid_def)
    show ?thesis using frame fr1 sub by (metis subsetD)
  qed
qed

lemma frame_config:
  "wf_store h \<Longrightarrow> distinct (nested n h c) \<Longrightarrow> merge_config n d c h = (e, h') \<Longrightarrow>
   \<forall>a. a \<notin> set (nested n h c) \<longrightarrow> h' a = h a"
proof (induction n arbitrary: d c h e h')
  case 0
  then show ?case by simp
next
  case (Suc n)
  have run: "merge_items n d (length (h d)) (h d) c h = (e, h')" using Suc.prems(3) by simp
  have 2: "distinct (map fst (h d))" using Suc.prems(1) by (simp add: wf_store_def)
  have 3: "\<exists>ext. h c = h c @ ext \<and> keys ext \<inter> keys (h d) = {}"
    by (intro exI[of _ "[]"]) (simp add: keys_def)
  show ?case
    by (rule frame_items[OF Suc.IH Suc.prems(1,2) Suc.prems(1) 2 3 _ _ run]) auto
qed

section \<open>Claims about the merge\<close>

lemma sample_stores:
  "has_default user_config" "loaded user_config 3" "loaded user_config 5"
  "has_default config_with_scalar_app" "loaded config_with_scalar_app 3"
  by (simp_all add: user_config_def config_with_scalar_app_def default_store_def
      has_default_def loaded_def default_addrs_def)

text \<open>
  C1, as stated: after \<^verbatim>\<open>merge_config(DEFAULT_CONFIG, current)\<close> every key path of the
  default schema is present in \<^verbatim>\<open>current\<close>. It fails for a configuration that binds
  \<^verbatim>\<open>app\<close> to a number: the merge returns, and the path \<^verbatim>\<open>app.name\<close> of the default is not
  in the result, because a value that is not a mapping is left as it is.
\<close>

theorem merge_completeness_counterexample:
  "has_default config_with_scalar_app \<and> loaded config_with_scalar_app 3 \<and>
   has_path config_with_scalar_app DEFAULT_CONFIG [''app'', ''name''] \<and>
   fst (merge_config 2 DEFAULT_CONFIG 3 config_with_scalar_app) = None \<and>
   \<not> has_path (snd (merge_config 2 DEFAULT_CONFIG 3 config_with_scalar_app)) 3
        [''app'', ''name'']"
  by (simp add: config_with_scalar_app_def default_store_def has_default_def loaded_def
      default_addrs_def root_defaults_def app_defaults_def system_defaults_def numeral_2_eq_2)

text \<open>
  C1, amended: for a configuration \<open>c\<close> read from the file and at least two stack frames,
  \<^verbatim>\<open>merge_config(DEFAULT_CONFIG, c)\<close> returns, and every key path of the default schema is
  then present in \<open>c\<close>, unless \<open>c\<close> binds a key on the way (\<^verbatim>\<open>app\<close> or \<^verbatim>\<open>system\<close>) to a
  value that is not a mapping. In particular every top-level key of the default is present.
  The merged \<open>c\<close> is what \<^verbatim>\<open>load_config\<close> writes back to the file.
\<close>

theorem merge_completeness:
  assumes "has_default h" "loaded h c" "2 \<le> n"
    and "has_path h DEFAULT_CONFIG ks" "\<not> blocked h c ks"
  shows "\<exists>h'. merge_config n DEFAULT_CONFIG c h = (None, h') \<and> has_path h' c ks"
  using assms by (rule default_merge_paths)

theorem merge_completeness_witness:
  "has_default user_config \<and> loaded user_config 3 \<and> (2::nat) \<le> 2 \<and>
   has_path user_config DEFAULT_CONFIG [''system'', ''install_docker''] \<and>
   \<not> blocked user_config 3 [''system'', ''install_docker''] \<and>
   (\<exists>h'. merge_config 2 DEFAULT_CONFIG 3 user_config = (None, h') \<and>
         has_path h' 3 [''system'', ''install_docker''])"
proof -
  have p: "has_path user_config DEFAULT_CONFIG [''system'', ''install_docker'']"
    by (simp add: user_config_def default_store_def root_defaults_def system_defaults_def)
  have b: "\<not> blocked user_config 3 [''system'', ''install_docker'']"
    by (simp add: user_config_def)
  from merge_completeness[OF sample_stores(1,2) order_refl p b] sample_stores(1,2) p b
  show ?thesis by simp
qed



text \<open>
  C3: for a configuration \<open>c\<close> read from the file, merging the default into it returns, and
  merging the default into the result once more returns and leaves the whole store, hence
  the configuration, as the first merge left it.
\<close>

theorem merge_idempotent:
  assumes "has_default h" "loaded h c" "2 \<le> n"
  shows "\<exists>h'. merge_config n DEFAULT_CONFIG c h = (None, h') \<and>
              merge_config n DEFAULT_CONFIG c h' = (None, h')"
proof -
  from default_merge[OF assms] obtain h' where m: "merge_config n 0 c h = (None, h')"
    and d': "has_default h'" by blast
  obtain m' where n: "n = Suc (Suc m')" using two_le_Suc[OF assms(3)] by blast
  have h0: "h' 0 = h 0" "h 0 = root_defaults" using assms(1) d' by (simp_all add: has_default_def)
  have "\<forall>(k, v) \<in> set (h' 0). \<exists>cv. map_of (h' c) k = Some cv \<and>
          (\<forall>da ca. v = VDict da \<and> cv = VDict ca \<longrightarrow>
             merge_config (Suc m') da ca h' = (None, h'))"
  proof clarify
    fix k v assume kv: "(k, v) \<in> set (h' 0)"
    then have "k \<in> keys (h 0)" using h0 by (force simp: keys_def)
    with merge_config_keys[OF m] obtain cv where cv: "map_of (h' c) k = Some cv"
      by (blast dest: keys_map_of)
    have "merge_config (Suc m') da ca h' = (None, h')" if "v = VDict da" "cv = VDict ca" for da ca
    proof -
      have kd: "(k, VDict da) \<in> set (h 0)" using kv that h0 by simp
      then have "da = 1 \<or> da = 2" using h0 root_defaults_dict by auto
      then have same: "h' da = h da" and fl: "flat (h' da)"
        using assms(1) d' flat_app_defaults flat_system_defaults by (auto simp: has_default_def)
      from merge_config_nested_keys[OF m kd] cv that same have "keys (h' da) \<subseteq> keys (h' ca)"
        by simp
      with fl show ?thesis by (rule merge_config_flat_noop)
    qed
    with cv show "\<exists>cv. map_of (h' c) k = Some cv \<and>
          (\<forall>da ca. v = VDict da \<and> cv = VDict ca \<longrightarrow>
             merge_config (Suc m') da ca h' = (None, h'))"
      by blast
  qed
  then have "merge_items (Suc m') 0 (length (h' 0)) (h' 0) c h' = (None, h')"
    by (intro merge_items_noop) auto
  with m n show ?thesis by simp
qed

theorem merge_idempotent_witness:
  "has_default user_config \<and> loaded user_config 5 \<and> (2::nat) \<le> 2 \<and>
   (\<exists>h'. merge_config 2 DEFAULT_CONFIG 5 user_config = (None, h') \<and>
         merge_config 2 DEFAULT_CONFIG 5 h' = (None, h'))"
  using merge_idempotent[OF sample_stores(1,3) order_refl] sample_stores(1,3) by simp

text \<open>
  C9: \<^verbatim>\<open>merge_config\<close> is called from outside only as
  \<^verbatim>\<open>merge_config(DEFAULT_CONFIG, current)\<close>, with the configuration read from the file. For
  every such configuration \<open>c\<close>, whatever is shared inside it, the call returns and has
  written to \<open>c\<close> and to the mappings \<open>c\<close> binds to \<^verbatim>\<open>app\<close> and \<^verbatim>\<open>system\<close> only: the three
  mappings of \<^verbatim>\<open>DEFAULT_CONFIG\<close> have the items they had, and so has every other mapping.
\<close>

theorem merge_leaves_default:
  assumes "has_default h" "loaded h c" "2 \<le> n"
  shows "\<exists>h'. merge_config n DEFAULT_CONFIG c h = (None, h') \<and>
           h' DEFAULT_CONFIG = h DEFAULT_CONFIG \<and> h' DEFAULT_app = h DEFAULT_app \<and>
           h' DEFAULT_system = h DEFAULT_system \<and>
           (\<forall>a. a \<noteq> c \<and> map_of (h c) ''app'' \<noteq> Some (VDict a) \<and>
                map_of (h c) ''system'' \<noteq> Some (VDict a) \<longrightarrow> h' a = h a)"
proof -
  from default_merge_frame[OF assms] obtain h' where
    m: "merge_config n 0 c h = (None, h')" and d: "has_default h'"
    and fr: "\<forall>a. a \<noteq> c \<and> map_of (h c) ''app'' \<noteq> Some (VDict a) \<and>
         map_of (h c) ''system'' \<noteq> Some (VDict a) \<longrightarrow> h' a = h a" by blast
  from assms(1) d have "h' 0 = h 0" "h' 1 = h 1" "h' 2 = h 2" by (simp_all add: has_default_def)
  with m fr show ?thesis by blast
qed

theorem merge_leaves_default_witness:
  "has_default aliased_config \<and> loaded aliased_config 3 \<and> (2::nat) \<le> 2 \<and>
   5 \<noteq> (3::addr) \<and> map_of (aliased_config 3) ''app'' \<noteq> Some (VDict 5) \<and>
   map_of (aliased_config 3) ''system'' \<noteq> Some (VDict 5) \<and>
   fst (merge_config 2 DEFAULT_CONFIG 3 aliased_config) = None \<and>
   snd (merge_config 2 DEFAULT_CONFIG 3 aliased_config) DEFAULT_CONFIG = root_defaults \<and>
   snd (merge_config 2 DEFAULT_CONFIG 3 aliased_config) DEFAULT_app = app_defaults \<and>
   snd (merge_config 2 DEFAULT_CONFIG 3 aliased_config) DEFAULT_system = system_defaults \<and>
   snd (merge_config 2 DEFAULT_CONFIG 3 aliased_config) 5 = aliased_config 5 \<and>
   snd (merge_config 2 DEFAULT_CONFIG 3 aliased_config) 4 \<noteq> aliased_config 4"
proof -
  have 1: "has_default aliased_config" and 2: "loaded aliased_config 3"
    by (simp_all add: aliased_config_def default_store_def has_default_def loaded_def
        default_addrs_def)
  have 3: "map_of (aliased_config 3) ''app'' \<noteq> Some (VDict 5)"
    "map_of (aliased_config 3) ''system'' \<noteq> Some (VDict 5)"
    by (simp_all add: aliased_config_def)
  have 4: "aliased_config 0 = root_defaults" "aliased_config 1 = app_defaults"
    "aliased_config 2 = system_defaults"
    by (simp_all add: aliased_config_def default_store_def)
  from merge_leaves_default[OF 1 2 order_refl] obtain h' where
    m: "merge_config 2 0 3 aliased_config = (None, h')"
    and d: "h' 0 = aliased_config 0" "h' 1 = aliased_config 1" "h' 2 = aliased_config 2"
    and fr: "\<forall>a. a \<noteq> 3 \<and> map_of (aliased_config 3) ''app'' \<noteq> Some (VDict a) \<and>
         map_of (aliased_config 3) ''system'' \<noteq> Some (VDict a) \<longrightarrow> h' a = aliased_config a"
    by blast
  from fr 3 have 5: "h' 5 = aliased_config 5" by simp
  have 6: "snd (merge_config 2 0 3 aliased_config) 4 \<noteq> aliased_config 4"
    by (simp add: aliased_config_def default_store_def root_defaults_def app_defaults_def
        system_defaults_def numeral_2_eq_2)
  from 1 2 3 4 5 6 m d show ?thesis by simp
qed

section \<open>Claims about the steps\<close>

lemma emit_emit: "emit es (emit es' r) = emit (es @ es') r"
  by (cases r) (simp add: emit_def)

lemma emit_Returned:
  "emit es r = (Returned, w, es1) \<Longrightarrow> \<exists>es'. r = (Returned, w, es') \<and> es1 = es @ es'"
  by (cases r) (auto simp: emit_def)

lemma full_config_flags:
  "system_get full_config 3 ''auto_update'' (VBool False) = Inr (VBool True)"
  "system_get full_config 3 ''install_docker'' (VBool False) = Inr (VBool True)"
  "system_get full_config 3 ''auto_install'' (VBool False) = Inr (VBool True)"
  "map_of (full_config 3) ''packages'' = Some (VList [VStr ''git'', VStr ''vim''])"
  by (simp_all add: system_get_def full_config_def)

lemma bare_linux_manager: "detect_package_manager bare_linux_box = ''unknown-linux''"
  by (simp add: detect_package_manager_def bare_linux_box_def managers_def)

lemma first_manager_find:
  "first_manager w ms =
     (case find (\<lambda>(cmd, name). which w cmd) ms of
        None \<Rightarrow> ''unknown-linux''
      | Some (cmd, name) \<Rightarrow> name)"
  by (induction ms) auto

text \<open>The loop over a list of packages is the loop over its first part, then over the rest
  from the world the first part left.\<close>

lemma install_loop_append:
  "install_loop run mk pre w = (Returned, w1, es1) \<Longrightarrow>
   install_loop run mk (pre @ post) w = emit es1 (install_loop run mk post w1)"
proof (induction pre arbitrary: w es1)
  case Nil
  then show ?case by (cases "install_loop run mk post w1") (simp add: emit_def)
next
  case (Cons pkg pre)
  show ?case
  proof (cases pkg)
    case (VStr p)
    show ?thesis
    proof (cases "is_installed w p")
      case True
      with Cons.prems VStr
      have "emit [Print (''[OK] '' @ p @ '' already installed'')] (install_loop run mk pre w) =
              (Returned, w1, es1)" by simp
      from emit_Returned[OF this] obtain es' where
        r: "install_loop run mk pre w = (Returned, w1, es')"
        and es: "es1 = [Print (''[OK] '' @ p @ '' already installed'')] @ es'" by blast
      from Cons.IH[OF r] VStr True es show ?thesis by (simp add: emit_emit)
    next
      case False
      obtain out w' es where s: "subprocess_run run (mk p) w = (out, w', es)"
        by (cases "subprocess_run run (mk p) w")
      show ?thesis
      proof (cases out)
        case Returned
        with Cons.prems VStr False s
        have "emit (Print (''[INSTALL] '' @ join '' '' (mk p)) # es) (install_loop run mk pre w') =
                (Returned, w1, es1)" by simp
        from emit_Returned[OF this] obtain es' where
          r: "install_loop run mk pre w' = (Returned, w1, es')"
          and es1: "es1 = (Print (''[INSTALL] '' @ join '' '' (mk p)) # es) @ es'" by blast
        from Cons.IH[OF r] VStr False s Returned es1 show ?thesis by (simp add: emit_emit)
      next
        case (Raised x)
        with Cons.prems VStr False s show ?thesis by simp
      next
        case (Exited x)
        with Cons.prems VStr False s show ?thesis by simp
      qed
    qed
  qed (use Cons.prems in simp_all)
qed

text \<open>
  C4: when \<^verbatim>\<open>platform.system()\<close> is neither \<^verbatim>\<open>Linux\<close> nor \<^verbatim>\<open>Darwin\<close>, the run prints the
  banner and \<^verbatim>\<open>Unsupported OS\<close> and exits with code 1; nothing else is printed, no process
  is started and the world is as it was, whatever the configuration: no later step runs.
\<close>

theorem unsupported_os_abort:
  assumes "platform_system w \<noteq> ''Linux''" "platform_system w \<noteq> ''Darwin''"
  shows "main run h c w = (Exited 1, w, banner @ [Print ''Unsupported OS''])"
  using assms by (simp add: main_def logo_def check_os_def emit_def)

theorem unsupported_os_abort_witness:
  "platform_system windows_box \<noteq> ''Linux'' \<and> platform_system windows_box \<noteq> ''Darwin'' \<and>
   main quiet_run full_config 3 windows_box =
     (Exited 1, windows_box, banner @ [Print ''Unsupported OS''])"
proof -
  have 1: "platform_system windows_box \<noteq> ''Linux''"
    and 2: "platform_system windows_box \<noteq> ''Darwin''"
    by (simp_all add: windows_box_def)
  from unsupported_os_abort[OF 1 2] 1 2 show ?thesis by simp
qed

text \<open>
  C5: when the detected package manager is in none of the three tables, each of the steps
  update, Docker install and package install returns without starting a process and
  leaves the world as it was, for every configuration whose \<^verbatim>\<open>system\<close> entry can be read
  (it is absent or a mapping). The step prints one line: the warning naming the manager
  when its flag is on (and, for the packages, the list is not empty), else the line saying
  why it has nothing to do. No package is tried.
\<close>

theorem unsupported_manager_safe:
  assumes "system_get h c ''auto_update'' (VBool False) = Inr fu"
    and "system_get h c ''install_docker'' (VBool False) = Inr fd"
    and "system_get h c ''auto_install'' (VBool False) = Inr fi"
    and "map_of update_commands (detect_package_manager w) = None"
    and "map_of docker_packages (detect_package_manager w) = None"
    and "map_of INSTALL_COMMANDS (detect_package_manager w) = None"
  shows "auto_update_system run h c w =
           (Returned, w,
            [Print (if truthy h fu
                    then ''[WARN] Auto update not supported for: '' @ detect_package_manager w
                    else ''[INFO] Auto update disabled'')]) \<and>
         install_docker run h c w =
           (Returned, w,
            [Print (if truthy h fd
                    then ''[WARN] Docker install not supported for: '' @ detect_package_manager w
                    else ''[INFO] Docker install disabled'')]) \<and>
         auto_install_packages run h c w =
           (Returned, w,
            [Print (if \<not> truthy h fi then ''[INFO] Auto install disabled''
                    else if \<not> truthy h (case map_of (h c) ''packages'' of
                                            None \<Rightarrow> VList [] | Some v \<Rightarrow> v)
                    then ''[INFO] No packages to install''
                    else ''[WARN] Package manager not supported: '' @ detect_package_manager w)])"
  using assms
  by (simp add: auto_update_system_def install_docker_def auto_install_packages_def Let_def)

theorem unsupported_manager_safe_witness:
  "system_get full_config 3 ''auto_update'' (VBool False) = Inr (VBool True) \<and>
   system_get full_config 3 ''install_docker'' (VBool False) = Inr (VBool True) \<and>
   system_get full_config 3 ''auto_install'' (VBool False) = Inr (VBool True) \<and>
   map_of update_commands (detect_package_manager bare_linux_box) = None \<and>
   map_of docker_packages (detect_package_manager bare_linux_box) = None \<and>
   map_of INSTALL_COMMANDS (detect_package_manager bare_linux_box) = None \<and>
   auto_update_system quiet_run full_config 3 bare_linux_box =
     (Returned, bare_linux_box, [Print ''[WARN] Auto update not supported for: unknown-linux'']) \<and>
   install_docker quiet_run full_config 3 bare_linux_box =
     (Returned, bare_linux_box,
      [Print ''[WARN] Docker install not supported for: unknown-linux'']) \<and>
   auto_install_packages quiet_run full_config 3 bare_linux_box =
     (Returned, bare_linux_box, [Print ''[WARN] Package manager not supported: unknown-linux''])"
proof -
  have u: "map_of update_commands (detect_package_manager bare_linux_box) = None"
    by (simp add: bare_linux_manager update_commands_def)
  have d: "map_of docker_packages (detect_package_manager bare_linux_box) = None"
    by (simp add: bare_linux_manager docker_packages_def)
  have i: "map_of INSTALL_COMMANDS (detect_package_manager bare_linux_box) = None"
    by (simp add: bare_linux_manager INSTALL_COMMANDS_def)
  from unsupported_manager_safe[OF full_config_flags(1,2,3) u d i, of quiet_run]
    full_config_flags u d i
  show ?thesis by (simp add: bare_linux_manager)
qed

text \<open>
  C6: on Linux the prober tries \<^verbatim>\<open>pacman, apt, dnf, yum, zypper, apk, emerge, xbps-install,
  nix-env\<close> in this order and returns the identity of the first one found on the path (the
  name of the executable, but \<^verbatim>\<open>xbps\<close> for \<^verbatim>\<open>xbps-install\<close> and \<^verbatim>\<open>nix\<close> for \<^verbatim>\<open>nix-env\<close>), or
  \<^verbatim>\<open>unknown-linux\<close> when none is found; with \<^verbatim>\<open>pacman\<close> and \<^verbatim>\<open>apt\<close> both present it
  returns \<^verbatim>\<open>pacman\<close>.
\<close>

theorem manager_priority:
  assumes "platform_system w = ''Linux''"
  shows "detect_package_manager w =
           (case find (which w)
                   [''pacman'', ''apt'', ''dnf'', ''yum'', ''zypper'', ''apk'', ''emerge'',
                    ''xbps-install'', ''nix-env''] of
              None \<Rightarrow> ''unknown-linux''
            | Some cmd \<Rightarrow>
                if cmd = ''xbps-install'' then ''xbps''
                else if cmd = ''nix-env'' then ''nix''
                else cmd) \<and>
         (which w ''pacman'' \<and> which w ''apt'' \<longrightarrow> detect_package_manager w = ''pacman'')"
  using assms by (simp add: detect_package_manager_def managers_def)

theorem manager_priority_witness:
  "platform_system arch_box = ''Linux'' \<and> which arch_box ''pacman'' \<and> which arch_box ''apt'' \<and>
   detect_package_manager arch_box = ''pacman'' \<and>
   platform_system void_box = ''Linux'' \<and> detect_package_manager void_box = ''xbps'' \<and>
   platform_system bare_linux_box = ''Linux'' \<and>
   detect_package_manager bare_linux_box = ''unknown-linux''"
proof -
  have 1: "platform_system arch_box = ''Linux''" by (simp add: arch_box_def)
  have 2: "which arch_box ''pacman'' \<and> which arch_box ''apt''" by (simp add: arch_box_def)
  have 3: "platform_system void_box = ''Linux''" by (simp add: void_box_def)
  have 4: "platform_system bare_linux_box = ''Linux''" by (simp add: bare_linux_box_def)
  have a: "detect_package_manager arch_box = ''pacman''"
    using manager_priority[OF 1] 2 by blast
  have v: "detect_package_manager void_box = ''xbps''"
    using manager_priority[OF 3] by (simp add: void_box_def)
  have b: "detect_package_manager bare_linux_box = ''unknown-linux''"
    using manager_priority[OF 4] by (simp add: bare_linux_box_def)
  from 1 2 3 4 a v b show ?thesis by simp
qed

text \<open>
  C7: in the package-install step, with the flag on and a supported manager, let the
  packages before \<open>p\<close> have been handled (events \<open>es1\<close>, world \<open>w1\<close>) and let \<open>p\<close> be found on
  the path then. The step's events are its heading, \<open>es1\<close>, the one line that \<open>p\<close> is
  already installed, and then whatever the loop does for the packages after \<open>p\<close>, in their
  order, from the same world \<open>w1\<close>: for \<open>p\<close> no process is started.
\<close>

theorem install_skip:
  assumes "system_get h c ''auto_install'' (VBool False) = Inr flag" "truthy h flag"
    and "map_of (h c) ''packages'' = Some (VList (pre @ VStr p # post))"
    and "map_of INSTALL_COMMANDS (detect_package_manager w) = Some mk"
    and "install_loop run mk pre w = (Returned, w1, es1)"
    and "is_installed w1 p"
  shows "auto_install_packages run h c w =
           emit (Print (''[INFO] Installing packages using: '' @ detect_package_manager w) # es1 @
                 [Print (''[OK] '' @ p @ '' already installed'')])
             (install_loop run mk post w1)"
proof -
  have "install_loop run mk (pre @ VStr p # post) w =
          emit es1 (install_loop run mk (VStr p # post) w1)"
    using assms(5) by (rule install_loop_append)
  also have "\<dots> = emit (es1 @ [Print (''[OK] '' @ p @ '' already installed'')])
                     (install_loop run mk post w1)"
    using assms(6) by (simp add: emit_emit)
  finally show ?thesis
    using assms(1-4) by (simp add: auto_install_packages_def emit_emit)
qed

theorem install_skip_witness:
  "system_get full_config 3 ''auto_install'' (VBool False) = Inr (VBool True) \<and>
   truthy full_config (VBool True) \<and>
   map_of (full_config 3) ''packages'' = Some (VList ([] @ VStr ''git'' # [VStr ''vim''])) \<and>
   map_of INSTALL_COMMANDS (detect_package_manager arch_box) =
     Some (\<lambda>p. [''sudo'', ''pacman'', ''-S'', ''--noconfirm'', p]) \<and>
   install_loop quiet_run (\<lambda>p. [''sudo'', ''pacman'', ''-S'', ''--noconfirm'', p]) [] arch_box =
     (Returned, arch_box, []) \<and>
   is_installed arch_box ''git'' \<and>
   auto_install_packages quiet_run full_config 3 arch_box =
     (Returned, arch_box,
      [Print ''[INFO] Installing packages using: pacman'',
       Print ''[OK] git already installed'',
       Print ''[INSTALL] sudo pacman -S --noconfirm vim'',
       Run [''sudo'', ''pacman'', ''-S'', ''--noconfirm'', ''vim'']])"
proof -
  have pm: "detect_package_manager arch_box = ''pacman''"
    by (simp add: detect_package_manager_def arch_box_def managers_def)
  have 2: "truthy full_config (VBool True)" by simp
  have 3: "map_of (full_config 3) ''packages'' = Some (VList ([] @ VStr ''git'' # [VStr ''vim'']))"
    by (simp add: full_config_flags)
  have 4: "map_of INSTALL_COMMANDS (detect_package_manager arch_box) =
             Some (\<lambda>p. [''sudo'', ''pacman'', ''-S'', ''--noconfirm'', p])"
    by (simp add: pm INSTALL_COMMANDS_def)
  have 5: "install_loop quiet_run (\<lambda>p. [''sudo'', ''pacman'', ''-S'', ''--noconfirm'', p]) []
             arch_box = (Returned, arch_box, [])" by simp
  have 6: "is_installed arch_box ''git''" by (simp add: is_installed_def arch_box_def)
  have vim: "\<not> is_installed arch_box ''vim''" by (simp add: is_installed_def arch_box_def)
  from install_skip[OF full_config_flags(3) 2 3 4 5 6] full_config_flags(3) 2 3 4 5 6 vim
  show ?thesis by (simp add: pm emit_def subprocess_run_def quiet_run_def)
qed

text \<open>
  C8, on a Linux system whose \<^verbatim>\<open>/etc/os-release\<close> exists and has no \<^verbatim>\<open>PRETTY_NAME\<close>
  line: \<^verbatim>\<open>get_linux_distro\<close> returns \<^verbatim>\<open>None\<close>, not \<^verbatim>\<open>"Unknown Linux"\<close>, and \<^verbatim>\<open>check_os\<close>
  prints \<^verbatim>\<open>OS: None\<close>. The fallback is returned only when the file does not exist.
\<close>

theorem pretty_name_absent:
  "platform_system bare_linux_box = ''Linux'' \<and>
   get_linux_distro bare_linux_box = Inr None \<and>
   check_os bare_linux_box = (Returned, bare_linux_box, [Print ''OS: None'']) \<and>
   get_linux_distro (bare_linux_box\<lparr>os_release := None\<rparr>) = Inr (Some ''Unknown Linux'')"
  by (simp add: bare_linux_box_def get_linux_distro_def check_os_def startswith_def)

text \<open>When the configuration has no \<^verbatim>\<open>system\<close> entry, or its \<^verbatim>\<open>system\<close> mapping lacks
  the flag of a step, the defaults of the two \<^verbatim>\<open>get\<close> calls make the step print that the
  feature is disabled and return.\<close>

lemma absent_flag_disabled:
  "(flag_missing h c ''auto_update'' \<longrightarrow>
      auto_update_system run h c w = (Returned, w, [Print ''[INFO] Auto update disabled''])) \<and>
   (flag_missing h c ''install_docker'' \<longrightarrow>
      install_docker run h c w = (Returned, w, [Print ''[INFO] Docker install disabled''])) \<and>
   (flag_missing h c ''auto_install'' \<longrightarrow>
      auto_install_packages run h c w =
        (Returned, w, [Print ''[INFO] Auto install disabled'']))"
  by (auto simp: flag_missing_def auto_update_system_def install_docker_def
      auto_install_packages_def system_get_def split: option.splits val.splits)

text \<open>
  C10, on a file that holds the line \<^verbatim>\<open>system:\<close> with nothing under it: \<^verbatim>\<open>load_config\<close>
  returns the configuration with \<^verbatim>\<open>system\<close> still bound to \<^verbatim>\<open>None\<close> (the merge leaves a
  value that is not a mapping), so the \<^verbatim>\<open>system\<close> mapping is absent and the default \<^verbatim>\<open>{}\<close>
  of \<^verbatim>\<open>config.get("system", {})\<close> is not used: each of the three steps raises
  \<^verbatim>\<open>AttributeError\<close> instead of printing that the feature is disabled, and \<^verbatim>\<open>main\<close> ends
  with that exception after the OS line.
\<close>

theorem null_system_raises:
  "load_config 2 (Some (VDict 3)) 7 null_system_config =
     (Inr (VDict 3), null_system_loaded, [Dump (VDict 3)]) \<and>
   map_of (null_system_loaded 3) ''system'' = Some VNone \<and>
   auto_update_system quiet_run null_system_loaded 3 arch_box =
     (Raised AttributeError, arch_box, []) \<and>
   install_docker quiet_run null_system_loaded 3 arch_box =
     (Raised AttributeError, arch_box, []) \<and>
   auto_install_packages quiet_run null_system_loaded 3 arch_box =
     (Raised AttributeError, arch_box, []) \<and>
   main quiet_run null_system_loaded 3 arch_box =
     (Raised AttributeError, arch_box, banner @ [Print ''OS: None''])"
proof -
  have l: "load_config 2 (Some (VDict 3)) 7 null_system_config =
     (Inr (VDict 3), null_system_loaded, [Dump (VDict 3)])"
    by (simp add: null_system_loaded_def load_config_def null_system_config_def default_store_def
        root_defaults_def app_defaults_def system_defaults_def numeral_2_eq_2 Let_def)
  have s: "map_of (null_system_loaded 3) ''system'' = Some VNone"
    by (simp add: null_system_loaded_def load_config_def null_system_config_def default_store_def
        root_defaults_def app_defaults_def system_defaults_def numeral_2_eq_2 Let_def)
  then have g: "system_get null_system_loaded 3 key dflt = Inl AttributeError" for key dflt
    by (simp add: system_get_def)
  have os: "check_os arch_box = (Returned, arch_box, [Print ''OS: None''])"
    by (simp add: check_os_def get_linux_distro_def arch_box_def startswith_def)
  show ?thesis
    using l s g os
    by (simp add: auto_update_system_def install_docker_def auto_install_packages_def
        main_def logo_def emit_def)
qed

end
